theory Spec2Isabelle
  imports Main "HOL-Library.Word"
begin

section \<open>JavaScript strings\<close>

text \<open>
  A JavaScript string is a sequence of 16-bit code units. ASCII literals of the
  source are written \<open>ascii ''...''\<close>.
\<close>

type_synonym jschar = "16 word"
type_synonym jsstring = "jschar list"

definition ascii :: "string \<Rightarrow> jsstring" where
  "ascii s = map of_char s"

text \<open>
  The characters removed by \<open>String.prototype.trim\<close> and matched by the regular
  expression class \<open>\s\<close>: WhiteSpace and LineTerminator of ECMAScript.
\<close>

definition isLineTerminator :: "jschar \<Rightarrow> bool" where
  "isLineTerminator c = (c = 0x0A \<or> c = 0x0D \<or> c = 0x2028 \<or> c = 0x2029)"

definition isWhiteSpace :: "jschar \<Rightarrow> bool" where
  "isWhiteSpace c =
     (c = 0x09 \<or> c = 0x0B \<or> c = 0x0C \<or> c = 0x20 \<or> c = 0xA0 \<or> c = 0x1680
      \<or> (0x2000 \<le> c \<and> c \<le> 0x200A) \<or> c = 0x202F \<or> c = 0x205F \<or> c = 0x3000
      \<or> c = 0xFEFF \<or> isLineTerminator c)"

text \<open>The class \<open>.\<close> of a regular expression without the \<open>s\<close> flag.\<close>

definition isDot :: "jschar \<Rightarrow> bool" where
  "isDot c = (\<not> isLineTerminator c)"

definition isDigit :: "jschar \<Rightarrow> bool" where
  "isDigit c = (0x30 \<le> c \<and> c \<le> 0x39)"

text \<open>The class \<open>\w\<close> (no \<open>i\<close> or \<open>u\<close> flag): \<open>[A-Za-z0-9_]\<close>.\<close>

definition isWord :: "jschar \<Rightarrow> bool" where
  "isWord c = ((0x41 \<le> c \<and> c \<le> 0x5A) \<or> (0x61 \<le> c \<and> c \<le> 0x7A) \<or> isDigit c \<or> c = 0x5F)"

definition trim :: "jsstring \<Rightarrow> jsstring" where
  "trim s = rev (dropWhile isWhiteSpace (rev (dropWhile isWhiteSpace s)))"

definition startsWith :: "jsstring \<Rightarrow> jsstring \<Rightarrow> bool" where
  "startsWith s p = (take (length p) s = p)"

fun includesStr :: "jsstring \<Rightarrow> jsstring \<Rightarrow> bool" where
  "includesStr [] sub = (sub = [])"
| "includesStr (c # s) sub = (startsWith (c # s) sub \<or> includesStr s sub)"

text \<open>\<open>s.slice(n)\<close> for a non-negative \<open>n\<close>.\<close>

definition slice :: "nat \<Rightarrow> jsstring \<Rightarrow> jsstring" where
  "slice n s = drop n s"

text \<open>\<open>s.split('\n')\<close>: never empty; the empty string gives one empty line.\<close>

fun split :: "jsstring \<Rightarrow> jsstring list" where
  "split [] = [[]]"
| "split (c # s) =
     (if c = 0x0A then [] # split s
      else (case split s of [] \<Rightarrow> [[c]] | l # ls \<Rightarrow> (c # l) # ls))"

text \<open>\<open>xs.join(sep)\<close>.\<close>

fun join :: "jsstring \<Rightarrow> jsstring list \<Rightarrow> jsstring" where
  "join sep [] = []"
| "join sep [x] = x"
| "join sep (x # y # ys) = x @ sep @ join sep (y # ys)"

text \<open>
  \<open>String.prototype.toLowerCase\<close>, as far as a regular expression over ASCII
  characters and \<open>\b\<close> can observe it: the ASCII capitals are mapped to small
  letters, and the only two characters outside ASCII whose lower-case form
  contains an ASCII character are U+0130 (to \<open>i\<close>, U+0307) and the Kelvin sign
  U+212A (to \<open>k\<close>). Every other code unit is left as it is; the real function
  maps it to code units outside ASCII.
\<close>

definition lowerChar :: "jschar \<Rightarrow> jsstring" where
  "lowerChar c =
     (if 0x41 \<le> c \<and> c \<le> 0x5A then [c + 0x20]
      else if c = 0x130 then [0x69, 0x307]
      else if c = 0x212A then [0x6B]
      else [c])"

definition toLowerCase :: "jsstring \<Rightarrow> jsstring" where
  "toLowerCase s = concat (map lowerChar s)"

text \<open>The decimal form of a number in a template literal.\<close>

fun digitsOf :: "nat \<Rightarrow> nat \<Rightarrow> jsstring" where
  "digitsOf 0 n = []"
| "digitsOf (Suc fuel) n =
     (if n < 10 then [0x30 + of_nat n]
      else digitsOf fuel (n div 10) @ [0x30 + of_nat (n mod 10)])"

definition numToString :: "nat \<Rightarrow> jsstring" where
  "numToString n = digitsOf (Suc n) n"

section \<open>Regular expressions\<close>

text \<open>
  The fragment of ECMAScript regular expressions that the source uses, with the
  backtracking order of the language: a greedy repetition of a character class
  tries the longest run first, an alternative tries its left branch first, an
  optional part is tried present before absent.
\<close>

datatype re =
    Lit jsstring
  | Cls "jschar \<Rightarrow> bool"
  | Rep nat "nat option" "jschar \<Rightarrow> bool"
  | Seq re re
  | Alt re re
  | Opt re
  | Grp nat re
  | WordB
  | Bol
  | Eol
  | NegLook re

text \<open>
  A position of the matcher: the code unit before it (\<open>None\<close> at the start of the
  input), the rest of the input, and the captures made so far.
\<close>

type_synonym mstate = "jschar option \<times> jsstring \<times> (nat \<times> jsstring) list"

definition advance :: "nat \<Rightarrow> mstate \<Rightarrow> mstate" where
  "advance k st =
     (case st of (prev, rest, caps) \<Rightarrow>
        (if k = 0 then prev else Some (last (take k rest)), drop k rest, caps))"

definition isWordAt :: "jschar option \<Rightarrow> bool" where
  "isWordAt c = (case c of None \<Rightarrow> False | Some x \<Rightarrow> isWord x)"

definition headOpt :: "jsstring \<Rightarrow> jschar option" where
  "headOpt s = (case s of [] \<Rightarrow> None | c # _ \<Rightarrow> Some c)"

text \<open>All the ways the expression matches at a position, in backtracking order.\<close>

fun ends :: "re \<Rightarrow> mstate \<Rightarrow> mstate list" where
  "ends (Lit l) st =
     (if startsWith (fst (snd st)) l then [advance (length l) st] else [])"
| "ends (Cls p) st =
     (case fst (snd st) of [] \<Rightarrow> [] | c # _ \<Rightarrow> if p c then [advance 1 st] else [])"
| "ends (Rep lo hi p) st =
     (let m = length (takeWhile p (fst (snd st)));
          m' = (case hi of None \<Rightarrow> m | Some h \<Rightarrow> min h m)
      in map (\<lambda>k. advance k st) (rev [lo..<Suc m']))"
| "ends (Seq a b) st = concat (map (ends b) (ends a st))"
| "ends (Alt a b) st = ends a st @ ends b st"
| "ends (Opt a) st = ends a st @ [st]"
| "ends (Grp n a) st =
     map (\<lambda>st'. (fst st', fst (snd st'),
                  (n, take (length (fst (snd st)) - length (fst (snd st'))) (fst (snd st)))
                    # snd (snd st')))
         (ends a st)"
| "ends WordB st =
     (if isWordAt (fst st) \<noteq> isWordAt (headOpt (fst (snd st))) then [st] else [])"
| "ends Bol st = (if fst st = None then [st] else [])"
| "ends Eol st = (if fst (snd st) = [] then [st] else [])"
| "ends (NegLook a) st = (if ends a st = [] then [st] else [])"

text \<open>
  The first match at or after a position, as \<open>exec\<close> finds it: the start
  positions from left to right, and at each the first way to match.
\<close>

fun reSearch :: "re \<Rightarrow> jschar option \<Rightarrow> jsstring \<Rightarrow> mstate option" where
  "reSearch r prev [] =
     (case ends r (prev, [], []) of [] \<Rightarrow> None | st # _ \<Rightarrow> Some st)"
| "reSearch r prev (c # s) =
     (case ends r (prev, c # s, []) of
        [] \<Rightarrow> reSearch r (Some c) s
      | st # _ \<Rightarrow> Some st)"

text \<open>\<open>r.test(s)\<close> and \<open>s.match(r)\<close> for an expression without the \<open>g\<close> flag
  (or a fresh one, whose \<open>lastIndex\<close> is 0).\<close>

definition reTest :: "re \<Rightarrow> jsstring \<Rightarrow> bool" where
  "reTest r s = (reSearch r None s \<noteq> None)"

definition reMatch :: "re \<Rightarrow> jsstring \<Rightarrow> (nat \<times> jsstring) list option" where
  "reMatch r s = map_option (\<lambda>st. snd (snd st)) (reSearch r None s)"

definition group :: "(nat \<times> jsstring) list \<Rightarrow> nat \<Rightarrow> jsstring" where
  "group caps n = (case map_of caps n of None \<Rightarrow> [] | Some g \<Rightarrow> g)"

fun seqs :: "re list \<Rightarrow> re" where
  "seqs [] = Lit []"
| "seqs [r] = r"
| "seqs (r # rs) = Seq r (seqs rs)"

fun alts :: "re list \<Rightarrow> re" where
  "alts [] = NegLook (Lit [])"
| "alts [r] = r"
| "alts (r # rs) = Alt r (alts rs)"

section \<open>The structural parser (markdownParser.ts)\<close>

record Section =
  s_title :: jsstring
  s_level :: nat
  s_lineNumber :: nat
  s_content :: jsstring

record CodeBlock =
  cb_language :: jsstring
  cb_code :: jsstring
  cb_lineNumber :: nat

record Heading =
  h_text :: jsstring
  h_level :: nat
  h_lineNumber :: nat

record ParsedMarkdown =
  sections :: "Section list"
  lineCount :: nat
  characterCount :: nat
  codeBlocks :: "CodeBlock list"
  headings :: "Heading list"

text \<open>The local variables of \<open>parseMarkdown\<close> that the loop body updates.\<close>

record pstate =
  p_sections :: "Section list"
  p_codeBlocks :: "CodeBlock list"
  p_headings :: "Heading list"
  currentSection :: "Section option"
  inCodeBlock :: bool
  currentCodeBlock :: "CodeBlock option"

definition fence :: jsstring where
  "fence = ascii ''```''"

text \<open>\<open>/^(#{1,6})\s+(.+)$/\<close>\<close>

definition headingRegex :: re where
  "headingRegex =
     seqs [Bol, Grp 1 (Rep 1 (Some 6) (\<lambda>c. c = 0x23)), Rep 1 None isWhiteSpace,
           Grp 2 (Rep 1 None isDot), Eol]"

text \<open>The body of \<open>lines.forEach((line, index) => ...)\<close>.\<close>

definition parseLine :: "pstate \<Rightarrow> nat \<times> jsstring \<Rightarrow> pstate" where
  "parseLine st il =
     (let index = fst il; line = snd il; lineNumber = index + 1 in
      if startsWith (trim line) fence then
        (if \<not> inCodeBlock st then
           (let l = trim (slice 3 (trim line));
                language = (if l = [] then ascii ''text'' else l)
            in st\<lparr>currentCodeBlock :=
                     Some \<lparr>cb_language = language, cb_code = [], cb_lineNumber = lineNumber\<rparr>,
                   inCodeBlock := True\<rparr>)
         else
           (case currentCodeBlock st of
              Some cb \<Rightarrow>
                st\<lparr>p_codeBlocks := p_codeBlocks st @ [cb], currentCodeBlock := None,
                   inCodeBlock := False\<rparr>
            | None \<Rightarrow> st\<lparr>inCodeBlock := False\<rparr>))
      else if inCodeBlock st \<and> currentCodeBlock st \<noteq> None then
        st\<lparr>currentCodeBlock :=
             map_option (\<lambda>cb. cb\<lparr>cb_code := cb_code cb @ line @ [0x0A]\<rparr>) (currentCodeBlock st)\<rparr>
      else
        (case reMatch headingRegex line of
           Some headingMatch \<Rightarrow>
             (let level = length (group headingMatch 1);
                  text = trim (group headingMatch 2)
              in st\<lparr>p_headings := p_headings st
                       @ [\<lparr>h_text = text, h_level = level, h_lineNumber = lineNumber\<rparr>],
                     p_sections := (case currentSection st of
                                      Some cs \<Rightarrow> p_sections st @ [cs]
                                    | None \<Rightarrow> p_sections st),
                     currentSection :=
                       Some \<lparr>s_title = text, s_level = level, s_lineNumber = lineNumber,
                             s_content = []\<rparr>\<rparr>)
         | None \<Rightarrow>
             (case currentSection st of
                Some cs \<Rightarrow>
                  st\<lparr>currentSection := Some (cs\<lparr>s_content := s_content cs @ line @ [0x0A]\<rparr>)\<rparr>
              | None \<Rightarrow> st)))"

definition initialState :: pstate where
  "initialState =
     \<lparr>p_sections = [], p_codeBlocks = [], p_headings = [], currentSection = None,
      inCodeBlock = False, currentCodeBlock = None\<rparr>"

definition parseMarkdown :: "jsstring \<Rightarrow> ParsedMarkdown" where
  "parseMarkdown content =
     (let lines = split content;
          st = foldl parseLine initialState (enumerate 0 lines)
      in \<lparr>sections = (case currentSection st of
                        Some cs \<Rightarrow> p_sections st @ [cs]
                      | None \<Rightarrow> p_sections st),
          lineCount = length lines,
          characterCount = length content,
          codeBlocks = p_codeBlocks st,
          headings = p_headings st\<rparr>)"

section \<open>Lexical heuristics (markdownParser.ts)\<close>

text \<open>\<open>/`([^`]+)`/g\<close>\<close>

definition inlineCodeRegex :: re where
  "inlineCodeRegex = seqs [Lit [0x60], Grp 1 (Rep 1 None (\<lambda>c. c \<noteq> 0x60)), Lit [0x60]]"

text \<open>
  The loop \<open>while ((match = regex.exec(content)) !== null)\<close> of an expression
  with the \<open>g\<close> flag: each search starts where the match before it ended. A
  match of \<open>inlineCodeRegex\<close> has at least three code units, so the search always
  moves on (lemma \<open>execAll_moves_on\<close>); the guard makes that explicit.
\<close>

function execAll :: "re \<Rightarrow> jschar option \<Rightarrow> jsstring \<Rightarrow> (nat \<times> jsstring) list list" where
  "execAll r prev s =
     (case reSearch r prev s of
        None \<Rightarrow> []
      | Some st \<Rightarrow>
          snd (snd st)
            # (if length (fst (snd st)) < length s then execAll r (fst st) (fst (snd st))
               else []))"
  by pat_completeness auto
termination
  by (relation "measure (\<lambda>(r, prev, s). length s)") auto

definition looksLikeCommand :: "jsstring \<Rightarrow> bool" where
  "looksLikeCommand code =
     (includesStr code (ascii '' '') \<or>
      startsWith code (ascii ''npm '') \<or>
      startsWith code (ascii ''pnpm '') \<or>
      startsWith code (ascii ''yarn '') \<or>
      startsWith code (ascii ''bun '') \<or>
      startsWith code (ascii ''git '') \<or>
      startsWith code (ascii ''docker '') \<or>
      startsWith code (ascii ''make '') \<or>
      includesStr code (ascii ''test'') \<or>
      includesStr code (ascii ''build'') \<or>
      includesStr code (ascii ''dev'') \<or>
      includesStr code (ascii ''start''))"

definition extractCommands :: "jsstring \<Rightarrow> jsstring list" where
  "extractCommands content =
     filter looksLikeCommand
       (map (\<lambda>match. group match 1) (execAll inlineCodeRegex None content))"

text \<open>\<open>/\b\w+\s+\d+(\.\d+)?(\.\d+)?\b/g\<close> and \<open>/\b\w+\s+v\d+(\.\d+)?(\.\d+)?\b/g\<close>\<close>

definition versionPatterns :: "re list" where
  "versionPatterns =
     [seqs [WordB, Rep 1 None isWord, Rep 1 None isWhiteSpace, Rep 1 None isDigit,
            Opt (Grp 1 (Seq (Lit (ascii ''.'')) (Rep 1 None isDigit))),
            Opt (Grp 2 (Seq (Lit (ascii ''.'')) (Rep 1 None isDigit))), WordB],
      seqs [WordB, Rep 1 None isWord, Rep 1 None isWhiteSpace, Lit (ascii ''v''),
            Rep 1 None isDigit,
            Opt (Grp 1 (Seq (Lit (ascii ''.'')) (Rep 1 None isDigit))),
            Opt (Grp 2 (Seq (Lit (ascii ''.'')) (Rep 1 None isDigit))), WordB]]"

definition hasVersionSpecificity :: "jsstring \<Rightarrow> bool" where
  "hasVersionSpecificity content = list_ex (\<lambda>pattern. reTest pattern content) versionPatterns"

record SectionKeywords =
  hasSetup :: bool
  hasTesting :: bool
  hasCodeStyle :: bool
  hasArchitecture :: bool
  hasSecurity :: bool
  hasGitWorkflow :: bool

text \<open>\<open>/\b(w1|w2|...)\b/\<close>\<close>

definition wordsRegex :: "string list \<Rightarrow> re" where
  "wordsRegex ws = seqs [WordB, Grp 1 (alts (map (\<lambda>w. Lit (ascii w)) ws)), WordB]"

definition detectSectionKeywords :: "jsstring \<Rightarrow> SectionKeywords" where
  "detectSectionKeywords text =
     (let lower = toLowerCase text in
      \<lparr>hasSetup = reTest (wordsRegex [''setup'', ''install'', ''dependencies'', ''requirements'',
                                      ''getting started'', ''dev environment'']) lower,
       hasTesting = reTest (wordsRegex [''test'', ''testing'', ''qa'', ''quality'']) lower,
       hasCodeStyle = reTest (wordsRegex [''style'', ''lint'', ''format'', ''convention'',
                                          ''standards'']) lower,
       hasArchitecture = reTest (wordsRegex [''architecture'', ''structure'', ''design'',
                                             ''organization'', ''overview'']) lower,
       hasSecurity = reTest (wordsRegex [''security'', ''auth'', ''authentication'', ''secrets'',
                                         ''credentials'']) lower,
       hasGitWorkflow = reTest (wordsRegex [''git'', ''commit'', ''pr'', ''pull request'',
                                            ''branch'', ''workflow'']) lower\<rparr>)"

section \<open>The rules (validationRules.ts)\<close>

datatype SuggestionPriority = Low | Medium | High

datatype SuggestionType = Tip | Info | Success

record ValidationSuggestion =
  stype :: SuggestionType
  title :: jsstring
  message :: jsstring
  suggestion :: "jsstring option"
  example :: "jsstring option"
  priority :: SuggestionPriority

text \<open>A template literal of several lines: the lines joined by newlines.\<close>

definition textLines :: "string list \<Rightarrow> jsstring" where
  "textLines ls = join [0x0A] (map ascii ls)"

definition checkLength :: "ParsedMarkdown \<Rightarrow> ValidationSuggestion option" where
  "checkLength parsed =
     (if lineCount parsed > 200 then
        Some \<lparr>stype = Tip,
              title = ascii ''Consider keeping it concise'',
              message = ascii ''Your AGENTS.md is '' @ numToString (lineCount parsed)
                @ ascii '' lines. Best practice is '' @ [0x2264]
                @ ascii ''150 lines for readability.'',
              suggestion = Some (ascii ''Try focusing on the most critical information agents need. Remove outdated or overly detailed sections.''),
              example = None,
              priority = Medium\<rparr>
      else if lineCount parsed > 150 then
        Some \<lparr>stype = Tip,
              title = ascii ''File is getting long'',
              message = ascii ''Your AGENTS.md is '' @ numToString (lineCount parsed)
                @ ascii '' lines. Consider trimming to '' @ [0x2264] @ ascii ''150 lines.'',
              suggestion = Some (ascii ''Focus on essential commands, conventions, and agent-specific context.''),
              example = None,
              priority = Low\<rparr>
      else None)"

definition checkMinimumContent :: "ParsedMarkdown \<Rightarrow> ValidationSuggestion option" where
  "checkMinimumContent parsed =
     (if lineCount parsed < 5 then
        Some \<lparr>stype = Tip,
              title = ascii ''Add more context'',
              message = ascii ''Your AGENTS.md is quite short. Adding more details will help agents work more effectively.'',
              suggestion = Some (ascii ''Consider adding setup commands, testing instructions, and code style guidelines.''),
              example = Some (textLines
                [''# AGENTS.md'', [],
                 ''## Setup'', ''- Install: `npm install`'', ''- Start dev: `npm run dev`'', [],
                 ''## Testing'', ''- Run tests: `npm test`'', [],
                 ''## Code style'', ''- Use TypeScript strict mode'',
                 ''- Prefer functional components'']),
              priority = Medium\<rparr>
      else if length (sections parsed) = 0 then
        Some \<lparr>stype = Tip,
              title = ascii ''Add section headings'',
              message = ascii ''No section headings found. Organize your content with clear headings.'',
              suggestion = Some (ascii ''Use ## for main sections like \"Setup\", \"Testing\", \"Code Style\".''),
              example = None,
              priority = High\<rparr>
      else None)"

text \<open>\<open>parsed.sections.map(s => s.title + ' ' + s.content).join(' ')\<close>\<close>

definition allText :: "ParsedMarkdown \<Rightarrow> jsstring" where
  "allText parsed =
     join (ascii '' '') (map (\<lambda>s. s_title s @ ascii '' '' @ s_content s) (sections parsed))"

definition checkCommonSections :: "ParsedMarkdown \<Rightarrow> ValidationSuggestion list" where
  "checkCommonSections parsed =
     (let keywords = detectSectionKeywords (allText parsed) in
      (if \<not> hasSetup keywords then
         [\<lparr>stype = Tip,
           title = ascii ''Consider adding setup instructions'',
           message = ascii ''No setup or installation section found. Agents work better with clear setup commands.'',
           suggestion = Some (ascii ''Add a section with installation and development environment setup.''),
           example = Some (textLines
             [''## Setup'', ''- Install dependencies: `pnpm install`'',
              ''- Start dev server: `pnpm dev`'', ''- Build: `pnpm build`'']),
           priority = High\<rparr>]
       else []) @
      (if \<not> hasTesting keywords then
         [\<lparr>stype = Tip,
           title = ascii ''Consider adding testing instructions'',
           message = ascii ''No testing section found. Test commands help agents verify their changes.'',
           suggestion = Some (ascii ''Add a section describing how to run tests and what to check.''),
           example = Some (textLines
             [''## Testing'', ''- Run all tests: `pnpm test`'',
              ''- Run specific test: `pnpm test -- <pattern>`'', ''- Lint code: `pnpm lint`'']),
           priority = Medium\<rparr>]
       else []) @
      (if \<not> hasCodeStyle keywords then
         [\<lparr>stype = Tip,
           title = ascii ''Consider documenting code style'',
           message = ascii ''No code style section found. Style guidelines help agents write consistent code.'',
           suggestion = Some (ascii ''Add a section with formatting rules, naming conventions, and patterns to follow.''),
           example = Some (textLines
             [''## Code style'', ''- TypeScript strict mode enabled'',
              ''- Use functional components with hooks'', ''- Single quotes, no semicolons'',
              ''- Prefer named exports'']),
           priority = Low\<rparr>]
       else []))"

definition checkCommandFormatting :: "ParsedMarkdown \<Rightarrow> jsstring \<Rightarrow> ValidationSuggestion option" where
  "checkCommandFormatting parsed content =
     (let commands = extractCommands content in
      if length commands > 5 \<and> length (codeBlocks parsed) = 0 then
        Some \<lparr>stype = Tip,
              title = ascii ''Consider using code blocks'',
              message = ascii ''Found '' @ numToString (length commands)
                @ ascii '' commands in inline code. Multi-line commands are easier to read in code blocks.'',
              suggestion = Some (ascii ''Use triple backticks (```) for multi-line commands or command lists.''),
              example = Some (textLines
                [''```bash'', ''npm install'', ''npm run dev'', ''npm test'', ''```'']),
              priority = Low\<rparr>
      else None)"

text \<open>
  The tool patterns, each with its name: \<open>/\bReact\b(?!\s+\d)/\<close>,
  \<open>/\bNode(?:\.js)?\b(?!\s+v?\d)/\<close>, \<open>/\bPython\b(?!\s+\d)/\<close>,
  \<open>/\bTypeScript\b(?!\s+\d)/\<close>, \<open>/\bNext(?:\.js)?\b(?!\s+\d)/\<close>.
\<close>

definition toolPatterns :: "(jsstring \<times> re) list" where
  "toolPatterns =
     [(ascii ''React'',
       seqs [WordB, Lit (ascii ''React''), WordB,
             NegLook (Seq (Rep 1 None isWhiteSpace) (Cls isDigit))]),
      (ascii ''Node'',
       seqs [WordB, Lit (ascii ''Node''), Opt (Lit (ascii ''.js'')), WordB,
             NegLook (seqs [Rep 1 None isWhiteSpace, Opt (Lit (ascii ''v'')), Cls isDigit])]),
      (ascii ''Python'',
       seqs [WordB, Lit (ascii ''Python''), WordB,
             NegLook (Seq (Rep 1 None isWhiteSpace) (Cls isDigit))]),
      (ascii ''TypeScript'',
       seqs [WordB, Lit (ascii ''TypeScript''), WordB,
             NegLook (Seq (Rep 1 None isWhiteSpace) (Cls isDigit))]),
      (ascii ''Next.js'',
       seqs [WordB, Lit (ascii ''Next''), Opt (Lit (ascii ''.js'')), WordB,
             NegLook (Seq (Rep 1 None isWhiteSpace) (Cls isDigit))])]"

definition checkVersionSpecificity :: "jsstring \<Rightarrow> ValidationSuggestion option" where
  "checkVersionSpecificity content =
     (let foundTools = map fst (filter (\<lambda>np. reTest (snd np) content) toolPatterns) in
      if length foundTools > 0 \<and> \<not> hasVersionSpecificity content then
        Some \<lparr>stype = Tip,
              title = ascii ''Be more specific about versions'',
              message = ascii ''Found '' @ join (ascii '', '') foundTools
                @ ascii '' mentioned without version numbers.'',
              suggestion = Some (ascii ''Specify versions to help agents use the right APIs and patterns.''),
              example = Some (ascii ''Use \"React 18\" or \"Node.js 20\" instead of just \"React\" or \"Node\".''),
              priority = Low\<rparr>
      else None)"

definition checkReadability :: "ParsedMarkdown \<Rightarrow> ValidationSuggestion list" where
  "checkReadability parsed =
     (let topLevelHeadings = filter (\<lambda>h. h_level h = 1) (headings parsed);
          longSections = filter (\<lambda>s. length (split (s_content s)) > 50) (sections parsed);
          emptySections = filter (\<lambda>s. length (trim (s_content s)) < 10) (sections parsed)
      in
      (if length topLevelHeadings > 1 then
         [\<lparr>stype = Info,
           title = ascii ''Multiple top-level headings'',
           message = ascii ''Found '' @ numToString (length topLevelHeadings)
             @ ascii '' # headings. AGENTS.md typically uses one # heading as the title.'',
           suggestion = Some (ascii ''Use ## for main sections instead of # to maintain clear hierarchy.''),
           example = None,
           priority = Low\<rparr>]
       else []) @
      (if length longSections > 0 then
         [\<lparr>stype = Tip,
           title = ascii ''Some sections are very long'',
           message = numToString (length longSections)
             @ ascii '' section(s) have more than 50 lines.'',
           suggestion = Some (ascii ''Consider breaking long sections into subsections or removing verbose details.''),
           example = None,
           priority = Low\<rparr>]
       else []) @
      (if length emptySections > 0 then
         [\<lparr>stype = Tip,
           title = ascii ''Empty sections detected'',
           message = numToString (length emptySections)
             @ ascii '' section(s) have little or no content.'',
           suggestion = Some (ascii ''Remove empty section headings or add content to make them useful.''),
           example = None,
           priority = Medium\<rparr>]
       else []))"

definition checkWellFormed :: "ParsedMarkdown \<Rightarrow> jsstring \<Rightarrow> ValidationSuggestion option" where
  "checkWellFormed parsed content =
     (let keywords = detectSectionKeywords (allText parsed);
          hasGoodLength = (lineCount parsed \<ge> 10 \<and> lineCount parsed \<le> 150);
          hasSections = (length (sections parsed) \<ge> 3);
          hasCommands = (length (extractCommands content) > 0 \<or> length (codeBlocks parsed) > 0);
          hasKeyTopics =
            (length (filter (\<lambda>b. b) [hasSetup keywords, hasTesting keywords, hasCodeStyle keywords])
               \<ge> 2)
      in
      if hasGoodLength \<and> hasSections \<and> hasCommands \<and> hasKeyTopics then
        Some \<lparr>stype = Success,
              title = ascii ''Well-structured AGENTS.md'',
              message = ascii ''Your AGENTS.md looks great! It has good structure, clear sections, and helpful commands.'',
              suggestion = Some (ascii ''Agents should be able to work effectively with this file.''),
              example = None,
              priority = High\<rparr>
      else None)"

section \<open>The validator (validator.ts)\<close>

record ValidationResult =
  suggestions :: "ValidationSuggestion list"
  score :: int
  summary :: jsstring

definition priorityOrder :: "SuggestionPriority \<Rightarrow> nat" where
  "priorityOrder p = (case p of High \<Rightarrow> 0 | Medium \<Rightarrow> 1 | Low \<Rightarrow> 2)"

definition calculateScore :: "ParsedMarkdown \<Rightarrow> ValidationSuggestion list \<Rightarrow> int" where
  "calculateScore parsed suggs =
     (let score0 = foldl (\<lambda>score s.
                      if stype s = Success then score
                      else (case priority s of
                              High \<Rightarrow> score - 15
                            | Medium \<Rightarrow> score - 8
                            | Low \<Rightarrow> score - 3))
                    100 suggs;
          score1 = max 0 score0;
          score2 = (if length (sections parsed) \<ge> 3 then score1 + 5 else score1);
          score3 = (if length (codeBlocks parsed) > 0 then score2 + 5 else score2);
          score4 = (if lineCount parsed \<ge> 10 \<and> lineCount parsed \<le> 150 then score3 + 5
                    else score3)
      in min 100 score4)"

definition generateSummary :: "ValidationSuggestion list \<Rightarrow> int \<Rightarrow> jsstring" where
  "generateSummary suggs sc =
     (let successSuggestions = filter (\<lambda>s. stype s = Success) suggs;
          highPrioritySuggestions =
            filter (\<lambda>s. priority s = High \<and> stype s \<noteq> Success) suggs
      in
      if length successSuggestions > 0 then
        ascii ''Your AGENTS.md is well-structured and ready to help agents work effectively!''
      else if sc \<ge> 80 then
        ascii ''Your AGENTS.md looks good with just a few suggestions for improvement.''
      else if sc \<ge> 60 then
        ascii ''Your AGENTS.md has good basics but could be improved in a few areas.''
      else if sc \<ge> 40 then
        ascii ''Your AGENTS.md needs some work. Focus on the high-priority suggestions first.''
      else if length highPrioritySuggestions > 0 then
        ascii ''Start by addressing the high-priority suggestions to improve your AGENTS.md.''
      else
        ascii ''Add more content and structure to help agents understand your project.'')"

text \<open>
  The suggestions of \<open>validateAgentsMd\<close> in the order the rules push them, before
  the sort. A rule that returns \<open>null\<close> pushes nothing.
\<close>

definition pushOpt :: "'a option \<Rightarrow> 'a list" where
  "pushOpt r = (case r of None \<Rightarrow> [] | Some x \<Rightarrow> [x])"

definition ruleSuggestions :: "ParsedMarkdown \<Rightarrow> jsstring \<Rightarrow> ValidationSuggestion list" where
  "ruleSuggestions parsed content =
     pushOpt (checkLength parsed) @
     pushOpt (checkMinimumContent parsed) @
     checkCommonSections parsed @
     pushOpt (checkCommandFormatting parsed content) @
     pushOpt (checkVersionSpecificity content) @
     checkReadability parsed @
     pushOpt (checkWellFormed parsed content)"

definition getStarted :: ValidationSuggestion where
  "getStarted =
     \<lparr>stype = Tip,
      title = ascii ''Get started with AGENTS.md'',
      message = ascii ''Your file is empty. Start by adding a title and basic sections.'',
      suggestion = Some (ascii ''Add setup commands, testing instructions, and code style guidelines.''),
      example = Some (textLines
        [''# AGENTS.md'', [],
         ''## Setup'', ''- Install dependencies: `npm install`'', ''- Start dev server: `npm run dev`'', [],
         ''## Testing'', ''- Run tests: `npm test`'', [],
         ''## Code style'', ''- Use TypeScript strict mode'', ''- Prefer functional components'']),
      priority = High\<rparr>"

text \<open>
  \<open>suggestions.sort((a, b) => priorityOrder[a.priority] - priorityOrder[b.priority])\<close>:
  \<open>Array.prototype.sort\<close> is stable (ECMAScript 2019), and so is \<open>sort_key\<close>.
\<close>

definition validateAgentsMd :: "jsstring \<Rightarrow> ValidationResult" where
  "validateAgentsMd content =
     (if content = [] \<or> length (trim content) = 0 then
        \<lparr>suggestions = [getStarted],
         score = 0,
         summary = ascii ''Empty file - add content to get started''\<rparr>
      else
        (let parsed = parseMarkdown content;
             suggs = sort_key (\<lambda>s. priorityOrder (priority s)) (ruleSuggestions parsed content);
             sc = calculateScore parsed suggs;
             summ = generateSummary suggs sc
         in \<lparr>suggestions = suggs, score = sc, summary = summ\<rparr>))"

section \<open>Vocabulary of the properties\<close>

text \<open>A fence-marker line: its trimmed form starts with three backticks.\<close>

definition isFenceLine :: "jsstring \<Rightarrow> bool" where
  "isFenceLine line = startsWith (trim line) fence"

text \<open>The state of the loop of \<open>parseMarkdown\<close> after the given lines.\<close>

definition parseLines :: "jsstring list \<Rightarrow> pstate" where
  "parseLines ls = foldl parseLine initialState (enumerate 0 ls)"

text \<open>The line numbers of the fence-marker lines, in order.\<close>

definition fenceNumbers :: "jsstring list \<Rightarrow> nat list" where
  "fenceNumbers ls =
     map (\<lambda>il. fst il + 1) (filter (\<lambda>il. isFenceLine (snd il)) (enumerate 0 ls))"

text \<open>The first marker with the second, the third with the fourth, and so on; a last
  marker without a partner is left out.\<close>

fun pairUp :: "nat list \<Rightarrow> (nat \<times> nat) list" where
  "pairUp (a # b # r) = (a, b) # pairUp r"
| "pairUp [a] = []"
| "pairUp [] = []"

text \<open>The invariant of the fences: the code blocks are the pairs of markers, and a
  block is open after an odd number of markers.\<close>

definition fenceInv :: "nat list \<Rightarrow> pstate \<Rightarrow> bool" where
  "fenceInv F st =
     (map cb_lineNumber (p_codeBlocks st) = map fst (pairUp F) \<and>
      inCodeBlock st = odd (length F) \<and>
      (if odd (length F)
       then (case currentCodeBlock st of None \<Rightarrow> False | Some cb \<Rightarrow> cb_lineNumber cb = last F)
       else currentCodeBlock st = None))"

text \<open>
  Line \<open>i\<close> (counted from 0, below the number of lines) is outside a fence: it is
  not a marker line and the marker lines before it are paired.
\<close>

definition outsideFence :: "jsstring list \<Rightarrow> nat \<Rightarrow> bool" where
  "outsideFence ls i = (\<not> isFenceLine (ls ! i) \<and> even (length (fenceNumbers (take i ls))))"

text \<open>The heading of a heading line: its level is the number of leading \<open>#\<close>, its text the
  trimmed rest of the line.\<close>

definition headingOf :: "nat \<times> jsstring \<Rightarrow> Heading" where
  "headingOf il =
     \<lparr>h_text = trim (dropWhile (\<lambda>c. c = 0x23) (snd il)),
      h_level = length (takeWhile (\<lambda>c. c = 0x23) (snd il)),
      h_lineNumber = fst il + 1\<rparr>"

text \<open>
  A line of the form \<open>/^(#{1,6})\s+(.+)$/\<close> in words: one to six \<open>#\<close>, then one or more
  white-space characters, then one or more characters none of which is a line
  terminator, up to the end of the line.
\<close>

definition headingLine :: "jsstring \<Rightarrow> bool" where
  "headingLine l =
     (\<exists>k w r. l = replicate k 0x23 @ w @ r \<and> 1 \<le> k \<and> k \<le> 6 \<and>
              w \<noteq> [] \<and> list_all isWhiteSpace w \<and> r \<noteq> [] \<and> list_all isDot r)"

text \<open>
  The content of the section of the heading on line \<open>n\<close>, when the next heading is on
  line \<open>m\<close> (or \<open>m\<close> is one more than the number of lines): the lines between the two
  that are outside a fence, each followed by a newline.
\<close>

definition contentBetween :: "jsstring list \<Rightarrow> nat \<Rightarrow> nat \<Rightarrow> jsstring" where
  "contentBetween ls n m =
     concat (map (\<lambda>il. snd il @ [0x0A])
       (filter (\<lambda>il. n \<le> fst il \<and> fst il + 1 < m \<and> outsideFence ls (fst il)) (enumerate 0 ls)))"

text \<open>The section that a heading opens, given the line of the next heading.\<close>

definition sectionOf :: "jsstring list \<Rightarrow> Heading \<times> nat \<Rightarrow> Section" where
  "sectionOf ls hn =
     \<lparr>s_title = h_text (fst hn), s_level = h_level (fst hn), s_lineNumber = h_lineNumber (fst hn),
      s_content = contentBetween ls (h_lineNumber (fst hn)) (snd hn)\<rparr>"

text \<open>The sections of the headings of a text: each runs to the next heading, the last
  one to the end of the text.\<close>

definition sectionsOf :: "jsstring list \<Rightarrow> Heading list \<Rightarrow> Section list" where
  "sectionsOf ls hs =
     map (sectionOf ls) (zip hs (map h_lineNumber (tl hs) @ [length ls + 1]))"

text \<open>
  The invariant of the sections: the sections pushed so far are those of all headings
  but the last, and the open section is that of the last heading, with the content
  gathered up to the current line.
\<close>

definition sectionInv :: "jsstring list \<Rightarrow> pstate \<Rightarrow> bool" where
  "sectionInv ls st =
     (if p_headings st = [] then p_sections st = [] \<and> currentSection st = None
      else p_sections st =
             map (sectionOf ls) (zip (butlast (p_headings st)) (map h_lineNumber (tl (p_headings st))))
           \<and> currentSection st = Some (sectionOf ls (last (p_headings st), length ls + 1)))"

text \<open>The score in the words of the specification: what a suggestion costs, and the
  bonuses of a parse.\<close>

definition deduction :: "ValidationSuggestion \<Rightarrow> int" where
  "deduction s =
     (if stype s = Success then 0
      else (case priority s of High \<Rightarrow> 15 | Medium \<Rightarrow> 8 | Low \<Rightarrow> 3))"

definition bonus :: "ParsedMarkdown \<Rightarrow> int" where
  "bonus parsed =
     (if length (sections parsed) \<ge> 3 then 5 else 0)
     + (if length (codeBlocks parsed) > 0 then 5 else 0)
     + (if 10 \<le> lineCount parsed \<and> lineCount parsed \<le> 150 then 5 else 0)"

text \<open>The titles of the suggestions of a result.\<close>

definition titles :: "ValidationResult \<Rightarrow> jsstring set" where
  "titles r = set (map title (suggestions r))"

section \<open>The loop of the parser\<close>

lemma parseLines_Nil: "parseLines [] = initialState"
  by (simp add: parseLines_def)

lemma parseLines_snoc: "parseLines (ls @ [l]) = parseLine (parseLines ls) (length ls, l)"
  by (simp add: parseLines_def enumerate_append_eq)

lemma parseMarkdown_parseLines:
  "parseMarkdown content =
     \<lparr>sections = (case currentSection (parseLines (split content)) of
                    Some cs \<Rightarrow> p_sections (parseLines (split content)) @ [cs]
                  | None \<Rightarrow> p_sections (parseLines (split content))),
      lineCount = length (split content),
      characterCount = length content,
      codeBlocks = p_codeBlocks (parseLines (split content)),
      headings = p_headings (parseLines (split content))\<rparr>"
  unfolding parseMarkdown_def parseLines_def Let_def by (rule refl)

subsection \<open>Code fences\<close>

lemma fenceNumbers_Nil: "fenceNumbers [] = []"
  by (simp add: fenceNumbers_def)

lemma fenceNumbers_snoc:
  "fenceNumbers (ls @ [l]) = fenceNumbers ls @ (if isFenceLine l then [length ls + 1] else [])"
  by (simp add: fenceNumbers_def enumerate_append_eq)

lemma pairUp_snoc:
  "pairUp (F @ [x]) = (if odd (length F) then pairUp F @ [(last F, x)] else pairUp F)"
  by (induction F rule: pairUp.induct) auto

lemma length_pairUp: "length (pairUp F) = length F div 2"
  by (induction F rule: pairUp.induct) auto

lemma pairUp_fst_butlast: "set (map fst (pairUp F)) \<subseteq> set (butlast F)"
  by (induction F rule: pairUp.induct) auto

lemma distinct_map_Suc: "distinct xs \<Longrightarrow> distinct (map Suc xs)"
  by (simp add: distinct_map)

lemma distinct_fenceNumbers: "distinct (fenceNumbers ls)"
proof -
  have "distinct (map fst (filter (\<lambda>il. isFenceLine (snd il)) (enumerate 0 ls)))"
    by (rule distinct_map_filter) simp
  then have "distinct (map Suc (map fst (filter (\<lambda>il. isFenceLine (snd il)) (enumerate 0 ls))))"
    by (rule distinct_map_Suc)
  then show ?thesis by (simp add: fenceNumbers_def comp_def)
qed

lemma last_not_paired:
  assumes "distinct F" "F \<noteq> []"
  shows "last F \<notin> set (map fst (pairUp F))"
proof -
  from assms have "distinct (butlast F @ [last F])" by simp
  then have "last F \<notin> set (butlast F)" by simp
  with pairUp_fst_butlast [of F] show ?thesis by blast
qed

lemma fenceInv_step:
  assumes "fenceInv F st"
  shows "fenceInv (F @ (if isFenceLine l then [i + 1] else [])) (parseLine st (i, l))"
proof (cases "isFenceLine l")
  case True
  show ?thesis
  proof (cases "odd (length F)")
    case True
    with assms \<open>isFenceLine l\<close> show ?thesis
      by (auto simp: fenceInv_def parseLine_def Let_def isFenceLine_def pairUp_snoc
               split: option.splits)
  next
    case False
    with assms \<open>isFenceLine l\<close> show ?thesis
      by (auto simp: fenceInv_def parseLine_def Let_def isFenceLine_def pairUp_snoc
               split: option.splits)
  qed
next
  case False
  with assms show ?thesis
    by (auto simp: fenceInv_def parseLine_def Let_def isFenceLine_def
             split: option.splits)
qed

lemma fenceInv_parseLines: "fenceInv (fenceNumbers ls) (parseLines ls)"
proof (induction ls rule: rev_induct)
  case Nil
  show ?case by (simp add: parseLines_Nil fenceNumbers_Nil fenceInv_def initialState_def)
next
  case (snoc l ls)
  from fenceInv_step [OF snoc, of l "length ls"] show ?case
    by (simp only: parseLines_snoc fenceNumbers_snoc)
qed

text \<open>
  C5. The code blocks of a parse are the pairs of fence-marker lines, the first with
  the second, the third with the fourth, and so on: a text with \<open>2 * n\<close> marker lines
  has \<open>n\<close> code blocks, and in general there are \<open>markers div 2\<close> of them. When the
  number of marker lines is odd the block that the last marker opens is not among
  the code blocks; the parser is a total function and signals nothing.
\<close>

theorem fence_balance:
  "length (codeBlocks (parseMarkdown text)) = length (fenceNumbers (split text)) div 2 \<and>
   (length (fenceNumbers (split text)) = 2 * n \<longrightarrow>
      length (codeBlocks (parseMarkdown text)) = n) \<and>
   map cb_lineNumber (codeBlocks (parseMarkdown text)) =
     map fst (pairUp (fenceNumbers (split text))) \<and>
   (odd (length (fenceNumbers (split text))) \<longrightarrow>
      last (fenceNumbers (split text))
        \<notin> set (map cb_lineNumber (codeBlocks (parseMarkdown text))))"
proof -
  let ?F = "fenceNumbers (split text)"
  have m: "map cb_lineNumber (codeBlocks (parseMarkdown text)) = map fst (pairUp ?F)"
    using fenceInv_parseLines [of "split text"]
    by (simp add: parseMarkdown_parseLines fenceInv_def)
  have "length (map cb_lineNumber (codeBlocks (parseMarkdown text))) = length (map fst (pairUp ?F))"
    by (simp only: m)
  then have l: "length (codeBlocks (parseMarkdown text)) = length ?F div 2"
    by (simp add: length_pairUp)
  have d: "odd (length ?F) \<longrightarrow>
             last ?F \<notin> set (map cb_lineNumber (codeBlocks (parseMarkdown text)))"
  proof
    assume "odd (length ?F)"
    then have "?F \<noteq> []" by auto
    from last_not_paired [OF distinct_fenceNumbers this]
    have "last ?F \<notin> set (map fst (pairUp ?F))" .
    then show "last ?F \<notin> set (map cb_lineNumber (codeBlocks (parseMarkdown text)))"
      unfolding m .
  qed
  from m l d show ?thesis by simp
qed

text \<open>
  Two texts: one fence pair around a line of code, and the same text followed by
  a third marker line that nothing closes.
\<close>

theorem fence_balance_witness:
  "(length (fenceNumbers (split (ascii ''```js'' @ [0x0A] @ ascii ''x'' @ [0x0A] @ ascii ''```''))) = 2 * 1
    \<and> length (codeBlocks (parseMarkdown
         (ascii ''```js'' @ [0x0A] @ ascii ''x'' @ [0x0A] @ ascii ''```''))) = 1)
   \<and> (odd (length (fenceNumbers (split
         (ascii ''```js'' @ [0x0A] @ ascii ''x'' @ [0x0A] @ ascii ''```'' @ [0x0A] @ ascii ''```sh''))))
    \<and> last (fenceNumbers (split
         (ascii ''```js'' @ [0x0A] @ ascii ''x'' @ [0x0A] @ ascii ''```'' @ [0x0A] @ ascii ''```sh'')))
       \<notin> set (map cb_lineNumber (codeBlocks (parseMarkdown
         (ascii ''```js'' @ [0x0A] @ ascii ''x'' @ [0x0A] @ ascii ''```'' @ [0x0A] @ ascii ''```sh'')))))"
proof -
  let ?t1 = "ascii ''```js'' @ [0x0A] @ ascii ''x'' @ [0x0A] @ ascii ''```''"
  let ?t2 = "ascii ''```js'' @ [0x0A] @ ascii ''x'' @ [0x0A] @ ascii ''```'' @ [0x0A] @ ascii ''```sh''"
  have h1: "length (fenceNumbers (split ?t1)) = 2 * 1" by code_simp
  have h2: "odd (length (fenceNumbers (split ?t2)))" by code_simp
  from fence_balance [of ?t1 1] h1 have c1: "length (codeBlocks (parseMarkdown ?t1)) = 1"
    by blast
  from fence_balance [of ?t2 0] h2
  have c2: "last (fenceNumbers (split ?t2)) \<notin> set (map cb_lineNumber (codeBlocks (parseMarkdown ?t2)))"
    by blast
  from h1 c1 h2 c2 show ?thesis by blast
qed

subsection \<open>A fence that nothing closes\<close>

lemma inside_step:
  assumes "inCodeBlock st" "currentCodeBlock st \<noteq> None" "\<not> isFenceLine (snd il)"
  shows "parseLine st il =
           st\<lparr>currentCodeBlock :=
                map_option (\<lambda>cb. cb\<lparr>cb_code := cb_code cb @ snd il @ [0x0A]\<rparr>) (currentCodeBlock st)\<rparr>"
  using assms by (simp add: parseLine_def Let_def isFenceLine_def)

lemma inside_run:
  assumes "inCodeBlock st" "currentCodeBlock st \<noteq> None" "list_all (\<lambda>il. \<not> isFenceLine (snd il)) ils"
  shows "p_headings (foldl parseLine st ils) = p_headings st \<and>
         p_sections (foldl parseLine st ils) = p_sections st \<and>
         currentSection (foldl parseLine st ils) = currentSection st \<and>
         p_codeBlocks (foldl parseLine st ils) = p_codeBlocks st"
  using assms
proof (induction ils arbitrary: st)
  case Nil
  show ?case by simp
next
  case (Cons il ils)
  let ?st = "st\<lparr>currentCodeBlock :=
                map_option (\<lambda>cb. cb\<lparr>cb_code := cb_code cb @ snd il @ [0x0A]\<rparr>) (currentCodeBlock st)\<rparr>"
  from Cons.prems have step: "parseLine st il = ?st"
    by (simp add: inside_step)
  from Cons.prems have "inCodeBlock ?st" "currentCodeBlock ?st \<noteq> None"
    "list_all (\<lambda>il. \<not> isFenceLine (snd il)) ils"
    by simp_all
  from Cons.IH [OF this] show ?case
    by (simp add: step)
qed

lemma fenceNumbers_no_fence:
  "list_all (\<lambda>l. \<not> isFenceLine l) ys \<Longrightarrow> fenceNumbers (xs @ ys) = fenceNumbers xs"
proof (induction ys rule: rev_induct)
  case Nil
  show ?case by simp
next
  case (snoc y ys)
  then have "fenceNumbers ((xs @ ys) @ [y]) = fenceNumbers xs"
    by (simp only: fenceNumbers_snoc) simp
  then show ?case by simp
qed

lemma parseLines_append:
  "parseLines (xs @ ys) = foldl parseLine (parseLines xs) (enumerate (length xs) ys)"
  by (simp add: parseLines_def enumerate_append_eq)

lemma headings_bound:
  "list_all (\<lambda>h. h_lineNumber h \<le> length ls) (p_headings (parseLines ls))"
proof (induction ls rule: rev_induct)
  case Nil
  show ?case by (simp add: parseLines_Nil initialState_def)
next
  case (snoc l ls)
  have "list_all (\<lambda>h. h_lineNumber h \<le> Suc (length ls)) (p_headings (parseLines ls))"
    by (rule list.pred_mono_strong [OF snoc]) simp
  then show ?case
    by (simp add: parseLines_snoc parseLine_def Let_def split: option.splits)
qed

lemma fence_step_headings:
  "isFenceLine l \<Longrightarrow> p_headings (parseLine st (i, l)) = p_headings st"
  by (simp add: parseLine_def Let_def isFenceLine_def split: option.splits)

text \<open>
  C10. Let the lines of a text be \<open>pre\<close>, then a fence-marker line \<open>f\<close> that opens a
  block (the markers before it are paired), then lines \<open>rest\<close> none of which is a
  marker, so that nothing closes the block. Then the text has the headings, the
  sections and the code blocks of the text cut off after \<open>f\<close>: the lines of \<open>rest\<close>
  give no heading and enter no section. Every heading comes from a line of
  \<open>pre\<close>, the block opened at \<open>f\<close> is not among the code blocks, and \<open>lineCount\<close> and
  \<open>characterCount\<close> count the whole text.
\<close>

theorem unterminated_fence:
  assumes "split text = pre @ f # rest"
    and "even (length (fenceNumbers pre))"
    and "isFenceLine f"
    and "list_all (\<lambda>l. \<not> isFenceLine l) rest"
    and "split text' = pre @ [f]"
  shows "headings (parseMarkdown text) = headings (parseMarkdown text') \<and>
         sections (parseMarkdown text) = sections (parseMarkdown text') \<and>
         codeBlocks (parseMarkdown text) = codeBlocks (parseMarkdown text') \<and>
         list_all (\<lambda>h. h_lineNumber h \<le> length pre) (headings (parseMarkdown text)) \<and>
         list_all (\<lambda>cb. cb_lineNumber cb \<noteq> length pre + 1) (codeBlocks (parseMarkdown text)) \<and>
         lineCount (parseMarkdown text) = length pre + 1 + length rest \<and>
         characterCount (parseMarkdown text) = length text"
proof -
  let ?st = "parseLines (pre @ [f])"
  let ?F = "fenceNumbers (pre @ [f])"
  have F: "?F = fenceNumbers pre @ [length pre + 1]"
    using assms(3) by (simp add: fenceNumbers_snoc)
  with assms(2) have oddF: "odd (length ?F)" by simp
  from fenceInv_parseLines [of "pre @ [f]"] oddF
  have open_block: "inCodeBlock ?st" "currentCodeBlock ?st \<noteq> None"
    and blocks: "map cb_lineNumber (p_codeBlocks ?st) = map fst (pairUp ?F)"
    by (auto simp: fenceInv_def split: option.splits)
  have rest: "list_all (\<lambda>il. \<not> isFenceLine (snd il)) (enumerate (length (pre @ [f])) rest)"
    using assms(4) by (auto simp: list_all_iff in_set_enumerate_eq)
  have full: "parseLines (split text) = foldl parseLine ?st (enumerate (length (pre @ [f])) rest)"
    using parseLines_append [of "pre @ [f]" rest] by (simp add: assms(1))
  note same = inside_run [OF open_block rest, folded full]
  have trunc: "parseLines (split text') = ?st" by (simp add: assms(5))
  have hb: "list_all (\<lambda>h. h_lineNumber h \<le> length pre) (p_headings ?st)"
    using headings_bound [of pre] by (simp add: parseLines_snoc fence_step_headings assms(3))
  have "last ?F \<notin> set (map fst (pairUp ?F))"
    by (rule last_not_paired [OF distinct_fenceNumbers]) (simp add: F)
  then have "length pre + 1 \<notin> set (map cb_lineNumber (p_codeBlocks ?st))"
    by (simp add: blocks F)
  then have cb: "list_all (\<lambda>cb. cb_lineNumber cb \<noteq> length pre + 1) (p_codeBlocks ?st)"
    by (force simp: list_all_iff)
  from same hb cb show ?thesis
    by (simp add: parseMarkdown_parseLines trunc assms(1) cong: option.case_cong)
qed

theorem unterminated_fence_witness:
  "split (ascii ''# A'' @ [0x0A] @ ascii ''```'' @ [0x0A] @ ascii ''# B'' @ [0x0A] @ ascii ''x'')
     = [ascii ''# A''] @ ascii ''```'' # [ascii ''# B'', ascii ''x'']
   \<and> even (length (fenceNumbers [ascii ''# A'']))
   \<and> isFenceLine (ascii ''```'')
   \<and> list_all (\<lambda>l. \<not> isFenceLine l) [ascii ''# B'', ascii ''x'']
   \<and> split (ascii ''# A'' @ [0x0A] @ ascii ''```'') = [ascii ''# A''] @ [ascii ''```'']
   \<and> headings (parseMarkdown
         (ascii ''# A'' @ [0x0A] @ ascii ''```'' @ [0x0A] @ ascii ''# B'' @ [0x0A] @ ascii ''x''))
       = headings (parseMarkdown (ascii ''# A'' @ [0x0A] @ ascii ''```''))
   \<and> sections (parseMarkdown
         (ascii ''# A'' @ [0x0A] @ ascii ''```'' @ [0x0A] @ ascii ''# B'' @ [0x0A] @ ascii ''x''))
       = sections (parseMarkdown (ascii ''# A'' @ [0x0A] @ ascii ''```''))
   \<and> lineCount (parseMarkdown
         (ascii ''# A'' @ [0x0A] @ ascii ''```'' @ [0x0A] @ ascii ''# B'' @ [0x0A] @ ascii ''x''))
       = length [ascii ''# A''] + 1 + length [ascii ''# B'', ascii ''x'']"
proof -
  let ?t = "ascii ''# A'' @ [0x0A] @ ascii ''```'' @ [0x0A] @ ascii ''# B'' @ [0x0A] @ ascii ''x''"
  let ?t' = "ascii ''# A'' @ [0x0A] @ ascii ''```''"
  have h1: "split ?t = [ascii ''# A''] @ ascii ''```'' # [ascii ''# B'', ascii ''x'']"
    by code_simp
  have h2: "even (length (fenceNumbers [ascii ''# A'']))" by code_simp
  have h3: "isFenceLine (ascii ''```'')" by code_simp
  have h4: "list_all (\<lambda>l. \<not> isFenceLine l) [ascii ''# B'', ascii ''x'']" by code_simp
  have h5: "split ?t' = [ascii ''# A''] @ [ascii ''```'']" by code_simp
  from unterminated_fence [OF h1 h2 h3 h4 h5] h1 h2 h3 h4 h5 show ?thesis by blast
qed


section \<open>Heading lines\<close>

lemma le_length_takeWhile:
  "k \<le> length (takeWhile p s) \<longleftrightarrow> k \<le> length s \<and> list_all p (take k s)"
proof (induction s arbitrary: k)
  case Nil
  show ?case by simp
next
  case (Cons c s)
  show ?case by (cases k) (auto simp: Cons.IH)
qed

lemma ends_Rep_iff:
  "st' \<in> set (ends (Rep lo hi p) st) \<longleftrightarrow>
     (\<exists>k. lo \<le> k \<and> k \<le> length (fst (snd st)) \<and> list_all p (take k (fst (snd st))) \<and>
          (case hi of None \<Rightarrow> True | Some h \<Rightarrow> k \<le> h) \<and> st' = advance k st)"
proof -
  let ?m = "length (takeWhile p (fst (snd st)))"
  let ?m' = "case hi of None \<Rightarrow> ?m | Some h \<Rightarrow> min h ?m"
  have "st' \<in> set (ends (Rep lo hi p) st) \<longleftrightarrow> (\<exists>k. lo \<le> k \<and> k \<le> ?m' \<and> st' = advance k st)"
    by (auto simp: Let_def less_Suc_eq_le)
  also have "\<dots> \<longleftrightarrow> (\<exists>k. lo \<le> k \<and> k \<le> ?m \<and> (case hi of None \<Rightarrow> True | Some h \<Rightarrow> k \<le> h)
                               \<and> st' = advance k st)"
    by (cases hi) auto
  finally show ?thesis
    by (simp only: le_length_takeWhile conj_assoc)
qed

lemma set_ends_Rep:
  "set (ends (Rep lo hi p) st) =
     {advance k st | k. lo \<le> k \<and> k \<le> length (fst (snd st)) \<and> list_all p (take k (fst (snd st))) \<and>
          (case hi of None \<Rightarrow> True | Some h \<Rightarrow> k \<le> h)}"
  using ends_Rep_iff [of _ lo hi p st] by blast

lemma set_ends_Seq:
  "set (ends (Seq a b) st) = (\<Union>st' \<in> set (ends a st). set (ends b st'))"
  by simp

lemma set_ends_Grp:
  "set (ends (Grp n a) st) =
     (\<lambda>st'. (fst st', fst (snd st'),
                (n, take (length (fst (snd st)) - length (fst (snd st'))) (fst (snd st)))
                  # snd (snd st'))) ` set (ends a st)"
  by simp

lemma set_ends_Bol: "set (ends Bol st) = (if fst st = None then {st} else {})"
  by simp

lemma set_ends_Eol: "set (ends Eol st) = (if fst (snd st) = [] then {st} else {})"
  by simp

lemmas set_ends = set_ends_Rep set_ends_Seq set_ends_Grp set_ends_Bol set_ends_Eol

lemma rest_advance: "fst (snd (advance k st)) = drop k (fst (snd st))"
  by (cases st) (simp add: advance_def)

lemma caps_advance: "snd (snd (advance k st)) = snd (snd st)"
  by (cases st) (simp add: advance_def)

lemma ends_Rep_D:
  assumes "st' \<in> set (ends (Rep lo None p) st)"
  obtains k where "lo \<le> k" "k \<le> length (fst (snd st))" "list_all p (take k (fst (snd st)))"
    "fst (snd st') = drop k (fst (snd st))" "snd (snd st') = snd (snd st)"
  using assms unfolding set_ends_Rep by (auto simp: rest_advance caps_advance)

lemma ends_Rep_bounded_D:
  assumes "st' \<in> set (ends (Rep lo (Some hi) p) st)"
  obtains k where "lo \<le> k" "k \<le> hi" "k \<le> length (fst (snd st))"
    "list_all p (take k (fst (snd st)))"
    "fst (snd st') = drop k (fst (snd st))" "snd (snd st') = snd (snd st)"
  using assms unfolding set_ends_Rep by (auto simp: rest_advance caps_advance)

lemma ends_Grp_D:
  assumes "st'' \<in> set (ends (Grp n a) st)"
  obtains st' where "st' \<in> set (ends a st)" "fst (snd st'') = fst (snd st')"
    "snd (snd st'') = (n, take (length (fst (snd st)) - length (fst (snd st'))) (fst (snd st)))
                        # snd (snd st')"
  using assms unfolding set_ends_Grp by auto

lemma ends_Seq_D:
  assumes "st'' \<in> set (ends (Seq a b) st)"
  obtains st' where "st' \<in> set (ends a st)" "st'' \<in> set (ends b st')"
  using assms unfolding set_ends_Seq by auto

lemma heading_ends_D:
  assumes "st \<in> set (ends headingRegex (None, s, []))"
  obtains k j where "1 \<le> k" "k \<le> 6" "k \<le> length s" "list_all (\<lambda>c. c = 0x23) (take k s)"
    "1 \<le> j" "j \<le> length (drop k s)" "list_all isWhiteSpace (take j (drop k s))"
    "drop j (drop k s) \<noteq> []" "list_all isDot (drop j (drop k s))"
    "snd (snd st) = [(2, drop j (drop k s)), (1, take k s)]"
proof -
  from assms have "st \<in> set (ends (Seq Bol (Seq (Grp 1 (Rep 1 (Some 6) (\<lambda>c. c = 0x23)))
        (Seq (Rep 1 None isWhiteSpace) (Seq (Grp 2 (Rep 1 None isDot)) Eol)))) (None, s, []))"
    by (simp only: headingRegex_def seqs.simps)
  then obtain st0 where st0: "st0 \<in> set (ends Bol (None, s, []))"
    and a1: "st \<in> set (ends (Seq (Grp 1 (Rep 1 (Some 6) (\<lambda>c. c = 0x23)))
        (Seq (Rep 1 None isWhiteSpace) (Seq (Grp 2 (Rep 1 None isDot)) Eol))) st0)"
    by (rule ends_Seq_D)
  from st0 have st0_eq: "st0 = (None, s, [])" by simp
  from a1 obtain st1 where g1: "st1 \<in> set (ends (Grp 1 (Rep 1 (Some 6) (\<lambda>c. c = 0x23))) st0)"
    and a2: "st \<in> set (ends (Seq (Rep 1 None isWhiteSpace) (Seq (Grp 2 (Rep 1 None isDot)) Eol)) st1)"
    by (rule ends_Seq_D)
  from g1 obtain st1' where r1: "st1' \<in> set (ends (Rep 1 (Some 6) (\<lambda>c. c = 0x23)) st0)"
    and rest1: "fst (snd st1) = fst (snd st1')"
    and caps1: "snd (snd st1) = (1, take (length (fst (snd st0)) - length (fst (snd st1'))) (fst (snd st0)))
                        # snd (snd st1')"
    by (rule ends_Grp_D)
  from r1 obtain k where k: "1 \<le> k" "k \<le> 6" "k \<le> length s"
    "list_all (\<lambda>c. c = 0x23) (take k s)"
    and rest1': "fst (snd st1') = drop k s" and caps1': "snd (snd st1') = []"
    by (rule ends_Rep_bounded_D) (simp_all add: st0_eq)
  from rest1 rest1' have rest_st1: "fst (snd st1) = drop k s" by simp
  from caps1 caps1' rest1' k(3) have caps_st1: "snd (snd st1) = [(1, take k s)]"
    by (simp add: st0_eq)
  from a2 obtain st2 where r2: "st2 \<in> set (ends (Rep 1 None isWhiteSpace) st1)"
    and a3: "st \<in> set (ends (Seq (Grp 2 (Rep 1 None isDot)) Eol) st2)"
    by (rule ends_Seq_D)
  from r2 obtain j where j: "1 \<le> j" "j \<le> length (drop k s)"
    "list_all isWhiteSpace (take j (drop k s))"
    and rest_st2: "fst (snd st2) = drop j (drop k s)" and caps_st2: "snd (snd st2) = [(1, take k s)]"
    by (rule ends_Rep_D) (simp_all add: rest_st1 caps_st1)
  from a3 obtain st3 where g2: "st3 \<in> set (ends (Grp 2 (Rep 1 None isDot)) st2)"
    and e: "st \<in> set (ends Eol st3)"
    by (rule ends_Seq_D)
  from e have st_eq: "st = st3" and at_end: "fst (snd st3) = []"
    by (simp_all split: if_splits)
  from g2 obtain st3' where r3: "st3' \<in> set (ends (Rep 1 None isDot) st2)"
    and rest3: "fst (snd st3) = fst (snd st3')"
    and caps3: "snd (snd st3) = (2, take (length (fst (snd st2)) - length (fst (snd st3'))) (fst (snd st2)))
                        # snd (snd st3')"
    by (rule ends_Grp_D)
  from r3 obtain i where i: "1 \<le> i" "i \<le> length (drop j (drop k s))"
    "list_all isDot (take i (drop j (drop k s)))"
    and rest3': "fst (snd st3') = drop i (drop j (drop k s))"
    and caps3': "snd (snd st3') = [(1, take k s)]"
    by (rule ends_Rep_D) (simp_all add: rest_st2 caps_st2)
  from at_end rest3 rest3' have all: "drop i (drop j (drop k s)) = []" by simp
  with i(2) have i_eq: "i = length (drop j (drop k s))" by simp
  from i(1) i_eq have ne: "drop j (drop k s) \<noteq> []" by auto
  from i(3) i_eq have dots: "list_all isDot (drop j (drop k s))" by simp
  from caps3 caps3' rest3' all have "snd (snd st) = [(2, drop j (drop k s)), (1, take k s)]"
    by (simp add: st_eq rest_st2)
  with k j ne dots show thesis by (rule that)
qed

lemma ends_Seq_I:
  "st' \<in> set (ends a st) \<Longrightarrow> st'' \<in> set (ends b st') \<Longrightarrow> st'' \<in> set (ends (Seq a b) st)"
  unfolding set_ends_Seq by blast

lemma ends_Rep_I:
  "lo \<le> k \<Longrightarrow> k \<le> length (fst (snd st)) \<Longrightarrow> list_all p (take k (fst (snd st))) \<Longrightarrow>
   (case hi of None \<Rightarrow> True | Some h \<Rightarrow> k \<le> h) \<Longrightarrow> advance k st \<in> set (ends (Rep lo hi p) st)"
  unfolding set_ends_Rep by blast

lemma ends_Grp_I:
  "st' \<in> set (ends a st) \<Longrightarrow>
   (fst st', fst (snd st'),
    (n, take (length (fst (snd st)) - length (fst (snd st'))) (fst (snd st))) # snd (snd st'))
     \<in> set (ends (Grp n a) st)"
  unfolding set_ends_Grp by blast

lemma heading_ends_I:
  assumes "1 \<le> k" "k \<le> 6" "k \<le> length s" "list_all (\<lambda>c. c = 0x23) (take k s)"
    "1 \<le> j" "j \<le> length (drop k s)" "list_all isWhiteSpace (take j (drop k s))"
    "drop j (drop k s) \<noteq> []" "list_all isDot (drop j (drop k s))"
  shows "ends headingRegex (None, s, []) \<noteq> []"
proof -
  let ?st0 = "(None, s, []) :: mstate"
  let ?st1' = "advance k ?st0"
  let ?st1 = "(fst ?st1', fst (snd ?st1'),
    (1, take (length (fst (snd ?st0)) - length (fst (snd ?st1'))) (fst (snd ?st0))) # snd (snd ?st1'))"
  let ?st2 = "advance j ?st1"
  let ?st3' = "advance (length (drop j (drop k s))) ?st2"
  let ?st3 = "(fst ?st3', fst (snd ?st3'),
    (2, take (length (fst (snd ?st2)) - length (fst (snd ?st3'))) (fst (snd ?st2))) # snd (snd ?st3'))"
  have b: "?st0 \<in> set (ends Bol ?st0)" by simp
  have r1: "?st1' \<in> set (ends (Rep 1 (Some 6) (\<lambda>c. c = 0x23)) ?st0)"
    by (rule ends_Rep_I) (use assms in simp_all)
  then have g1: "?st1 \<in> set (ends (Grp 1 (Rep 1 (Some 6) (\<lambda>c. c = 0x23))) ?st0)"
    by (rule ends_Grp_I)
  have rest1: "fst (snd ?st1) = drop k s" by (simp add: rest_advance)
  have r2: "?st2 \<in> set (ends (Rep 1 None isWhiteSpace) ?st1)"
    by (rule ends_Rep_I) (use assms in \<open>simp_all add: rest_advance\<close>)
  have rest2: "fst (snd ?st2) = drop j (drop k s)" by (simp add: rest_advance)
  have r3: "?st3' \<in> set (ends (Rep 1 None isDot) ?st2)"
    by (rule ends_Rep_I) (use assms in \<open>simp_all add: rest_advance Suc_le_eq\<close>)
  then have g2: "?st3 \<in> set (ends (Grp 2 (Rep 1 None isDot)) ?st2)"
    by (rule ends_Grp_I)
  have e: "?st3 \<in> set (ends Eol ?st3)" by (simp add: rest_advance)
  have "?st3 \<in> set (ends (Seq Bol (Seq (Grp 1 (Rep 1 (Some 6) (\<lambda>c. c = 0x23)))
        (Seq (Rep 1 None isWhiteSpace) (Seq (Grp 2 (Rep 1 None isDot)) Eol)))) ?st0)"
    by (rule ends_Seq_I [OF b], rule ends_Seq_I [OF g1], rule ends_Seq_I [OF r2],
        rule ends_Seq_I [OF g2], rule e)
  then have "?st3 \<in> set (ends headingRegex ?st0)"
    by (simp only: headingRegex_def seqs.simps)
  then show ?thesis by auto
qed

lemma reSearch_Bol: "reSearch (Seq Bol r) (Some c) s = None"
  by (induction s arbitrary: c) simp_all

lemma reSearch_headingRegex:
  "reSearch headingRegex None s =
     (case ends headingRegex (None, s, []) of [] \<Rightarrow> None | st # _ \<Rightarrow> Some st)"
proof (cases s)
  case Nil
  then show ?thesis by simp
next
  case (Cons c s')
  have "reSearch headingRegex (Some c) s' = None"
    unfolding headingRegex_def seqs.simps by (rule reSearch_Bol)
  then show ?thesis by (simp add: Cons split: list.splits)
qed

lemma headingLine_iff:
  "headingLine l \<longleftrightarrow>
     (\<exists>k j. 1 \<le> k \<and> k \<le> 6 \<and> k \<le> length l \<and> list_all (\<lambda>c. c = 0x23) (take k l) \<and>
        1 \<le> j \<and> j \<le> length (drop k l) \<and> list_all isWhiteSpace (take j (drop k l)) \<and>
        drop j (drop k l) \<noteq> [] \<and> list_all isDot (drop j (drop k l)))"
  (is "?L \<longleftrightarrow> ?R")
proof
  assume ?L
  then obtain k w r where l: "l = replicate k 0x23 @ w @ r" and k: "1 \<le> k" "k \<le> 6"
    and w: "w \<noteq> []" "list_all isWhiteSpace w" and r: "r \<noteq> []" "list_all isDot r"
    unfolding headingLine_def by blast
  have "1 \<le> length w" using w(1) by (cases w) simp_all
  with k w r show ?R
    by (intro exI [of _ k] exI [of _ "length w"]) (simp add: l list_all_iff)
next
  assume ?R
  then obtain k j where k: "1 \<le> k" "k \<le> 6" "k \<le> length l"
    "list_all (\<lambda>c. c = 0x23) (take k l)"
    and j: "1 \<le> j" "j \<le> length (drop k l)" "list_all isWhiteSpace (take j (drop k l))"
    and r: "drop j (drop k l) \<noteq> []" "list_all isDot (drop j (drop k l))"
    by blast
  have "replicate (length (take k l)) 0x23 = take k l"
    using k(4) by (intro replicate_length_same) (simp add: list_all_iff)
  then have "take k l = replicate (length (take k l)) 0x23" by (rule sym)
  with k(3) have hashes: "take k l = replicate k 0x23" by simp
  have "l = take k l @ take j (drop k l) @ drop j (drop k l)"
    by (simp only: append_take_drop_id)
  with hashes have "l = replicate k 0x23 @ take j (drop k l) @ drop j (drop k l)" by simp
  moreover have "take j (drop k l) \<noteq> []" using j by auto
  ultimately show ?L
    unfolding headingLine_def using k j r by blast
qed

lemma ws_not_hash: "isWhiteSpace c \<Longrightarrow> c \<noteq> 0x23"
  by (auto simp: isWhiteSpace_def isLineTerminator_def)

lemma trim_ws_prefix: "list_all isWhiteSpace w \<Longrightarrow> trim (w @ r) = trim r"
  by (simp add: trim_def list_all_iff dropWhile_append2)

lemma leading_hashes:
  assumes "k \<le> length l" "list_all (\<lambda>c. c = 0x23) (take k l)"
    "1 \<le> j" "j \<le> length (drop k l)" "list_all isWhiteSpace (take j (drop k l))"
  shows "takeWhile (\<lambda>c. c = 0x23) l = take k l" "dropWhile (\<lambda>c. c = 0x23) l = drop k l"
proof -
  from assms(3,4) obtain c cs where d: "drop k l = c # cs" by (cases "drop k l") auto
  with assms(3,5) have "isWhiteSpace c" by (cases j) simp_all
  then have nh: "c \<noteq> 0x23" by (rule ws_not_hash)
  have l: "l = take k l @ c # cs" using d by (metis append_take_drop_id)
  have "takeWhile (\<lambda>c. c = 0x23) (take k l @ c # cs) = take k l"
    using assms(2) nh by (simp add: takeWhile_append2 list_all_iff)
  with l show "takeWhile (\<lambda>c. c = 0x23) l = take k l" by simp
  have "dropWhile (\<lambda>c. c = 0x23) (take k l @ c # cs) = c # cs"
    using assms(2) nh by (simp add: dropWhile_append2 list_all_iff)
  with l d show "dropWhile (\<lambda>c. c = 0x23) l = drop k l" by simp
qed

lemma heading_match_None: "reMatch headingRegex l = None \<longleftrightarrow> \<not> headingLine l"
proof
  assume n: "reMatch headingRegex l = None"
  show "\<not> headingLine l"
  proof
    assume "headingLine l"
    then obtain k j where "1 \<le> k" "k \<le> 6" "k \<le> length l"
      "list_all (\<lambda>c. c = 0x23) (take k l)"
      "1 \<le> j" "j \<le> length (drop k l)" "list_all isWhiteSpace (take j (drop k l))"
      "drop j (drop k l) \<noteq> []" "list_all isDot (drop j (drop k l))"
      unfolding headingLine_iff by blast
    then have "ends headingRegex (None, l, []) \<noteq> []" by (rule heading_ends_I)
    with n show False
      by (simp add: reMatch_def reSearch_headingRegex split: list.splits)
  qed
next
  assume h: "\<not> headingLine l"
  show "reMatch headingRegex l = None"
  proof (cases "ends headingRegex (None, l, [])")
    case Nil
    then show ?thesis by (simp add: reMatch_def reSearch_headingRegex)
  next
    case (Cons st sts)
    then have "st \<in> set (ends headingRegex (None, l, []))" by simp
    then have "headingLine l"
      unfolding headingLine_iff by (rule heading_ends_D) blast
    with h show ?thesis by simp
  qed
qed

lemma heading_match_Some:
  assumes "reMatch headingRegex l = Some caps"
  shows "length (group caps 1) = length (takeWhile (\<lambda>c. c = 0x23) l)"
    and "trim (group caps 2) = trim (dropWhile (\<lambda>c. c = 0x23) l)"
proof -
  from assms obtain st sts where e: "ends headingRegex (None, l, []) = st # sts"
    and caps: "caps = snd (snd st)"
    by (cases "ends headingRegex (None, l, [])")
       (auto simp: reMatch_def reSearch_headingRegex)
  from e have "st \<in> set (ends headingRegex (None, l, []))" by simp
  then obtain k j where kj: "1 \<le> k" "k \<le> 6" "k \<le> length l"
    "list_all (\<lambda>c. c = 0x23) (take k l)"
    "1 \<le> j" "j \<le> length (drop k l)" "list_all isWhiteSpace (take j (drop k l))"
    "drop j (drop k l) \<noteq> []" "list_all isDot (drop j (drop k l))"
    and c: "snd (snd st) = [(2, drop j (drop k l)), (1, take k l)]"
    by (rule heading_ends_D)
  note lh = leading_hashes [OF kj(3,4,5,6,7)]
  from c caps have g1: "group caps 1 = take k l" and g2: "group caps 2 = drop j (drop k l)"
    by (simp_all add: group_def)
  from g1 lh(1) show "length (group caps 1) = length (takeWhile (\<lambda>c. c = 0x23) l)" by simp
  have "drop k l = take j (drop k l) @ drop j (drop k l)" by (simp only: append_take_drop_id)
  then have "trim (drop k l) = trim (take j (drop k l) @ drop j (drop k l))" by simp
  also have "\<dots> = trim (drop j (drop k l))" using kj(7) by (rule trim_ws_prefix)
  finally show "trim (group caps 2) = trim (dropWhile (\<lambda>c. c = 0x23) l)"
    by (simp add: g2 lh(2))
qed

lemma heading_step:
  assumes "fenceInv F st"
  shows "p_headings (parseLine st (i, l)) =
           p_headings st @
             (if \<not> isFenceLine l \<and> even (length F) \<and> headingLine l then [headingOf (i, l)]
              else [])"
proof (cases "isFenceLine l")
  case True
  then show ?thesis by (simp add: fence_step_headings)
next
  case nf: False
  show ?thesis
  proof (cases "odd (length F)")
    case True
    with assms have "inCodeBlock st" "currentCodeBlock st \<noteq> None"
      by (auto simp: fenceInv_def split: option.splits)
    with nf True show ?thesis by (simp add: inside_step)
  next
    case False
    with assms have out: "\<not> inCodeBlock st" by (simp add: fenceInv_def)
    show ?thesis
    proof (cases "reMatch headingRegex l")
      case None
      then have "\<not> headingLine l" by (simp add: heading_match_None)
      with nf out None show ?thesis
        by (simp add: parseLine_def Let_def isFenceLine_def split: option.splits)
    next
      case (Some caps)
      then have "headingLine l" using heading_match_None [of l] by simp
      with nf out False Some heading_match_Some [OF Some] show ?thesis
        by (simp add: parseLine_def Let_def isFenceLine_def headingOf_def)
    qed
  qed
qed

lemma outsideFence_prefix:
  "i < length ls \<Longrightarrow> outsideFence (ls @ [l]) i = outsideFence ls i"
  by (simp add: outsideFence_def nth_append)

lemma outsideFence_last:
  "outsideFence (ls @ [l]) (length ls) = (\<not> isFenceLine l \<and> even (length (fenceNumbers ls)))"
  by (simp add: outsideFence_def)

lemma headings_parseLines:
  "p_headings (parseLines ls) =
     map headingOf
       (filter (\<lambda>il. outsideFence ls (fst il) \<and> headingLine (snd il)) (enumerate 0 ls))"
proof (induction ls rule: rev_induct)
  case Nil
  show ?case by (simp add: parseLines_Nil initialState_def)
next
  case (snoc l ls)
  have same: "filter (\<lambda>il. outsideFence (ls @ [l]) (fst il) \<and> headingLine (snd il)) (enumerate 0 ls)
      = filter (\<lambda>il. outsideFence ls (fst il) \<and> headingLine (snd il)) (enumerate 0 ls)"
    by (rule filter_cong [OF refl]) (auto simp: in_set_enumerate_eq outsideFence_prefix)
  show ?case
    by (simp add: parseLines_snoc heading_step [OF fenceInv_parseLines] snoc enumerate_append_eq
        same outsideFence_last)
qed

text \<open>
  C7 (as amended). The headings of a parse are exactly the lines outside a code fence
  that match \<open>/^(#{1,6})\s+(.+)$/\<close>: one to six leading \<open>#\<close>, one or more white-space
  characters (not only spaces), then at least one character, none of them a line
  terminator, up to the end of the line. The level of the heading is the number of
  \<open>#\<close> and its text is the trimmed rest of the line, which is empty when that rest is
  white space only.
\<close>

theorem heading_lines:
  "headings (parseMarkdown content) =
     map headingOf
       (filter (\<lambda>il. outsideFence (split content) (fst il) \<and> headingLine (snd il))
          (enumerate 0 (split content)))"
  by (simp add: parseMarkdown_parseLines headings_parseLines)

text \<open>
  The line of a \<open>#\<close> and two spaces is recorded as a heading, and its text is empty.
\<close>

theorem heading_empty_text_counterexample:
  "headings (parseMarkdown (ascii ''#  '')) = [\<lparr>h_text = [], h_level = 1, h_lineNumber = 1\<rparr>]"
  by code_simp

text \<open>
  A tab separates as well as a space does, and a line that ends in a carriage return
  (a text with CRLF line ends) is not a heading: \<open>.\<close> does not match the carriage
  return, and \<open>$\<close> needs the end of the line.
\<close>

lemma heading_examples:
  "headings (parseMarkdown (ascii ''#'' @ [0x09] @ ascii ''T''))
     = [\<lparr>h_text = ascii ''T'', h_level = 1, h_lineNumber = 1\<rparr>]"
  "headings (parseMarkdown (ascii ''# T'' @ [0x0D, 0x0A] @ ascii ''text'')) = []"
  by code_simp+


section \<open>Sections\<close>

lemma contentBetween_stable:
  assumes "m \<le> length ls + 1"
  shows "contentBetween (ls @ [l]) n m = contentBetween ls n m"
proof -
  have "filter (\<lambda>il. n \<le> fst il \<and> fst il + 1 < m \<and> outsideFence (ls @ [l]) (fst il)) (enumerate 0 ls)
      = filter (\<lambda>il. n \<le> fst il \<and> fst il + 1 < m \<and> outsideFence ls (fst il)) (enumerate 0 ls)"
    by (rule filter_cong [OF refl]) (auto simp: in_set_enumerate_eq outsideFence_prefix)
  with assms show ?thesis
    by (simp add: contentBetween_def enumerate_append_eq)
qed

lemma contentBetween_extend:
  assumes "n \<le> length ls"
  shows "contentBetween (ls @ [l]) n (length ls + 2) =
           contentBetween ls n (length ls + 1) @
             (if \<not> isFenceLine l \<and> even (length (fenceNumbers ls)) then l @ [0x0A] else [])"
proof -
  have "filter (\<lambda>il. n \<le> fst il \<and> fst il + 1 < length ls + 2 \<and> outsideFence (ls @ [l]) (fst il))
          (enumerate 0 ls)
      = filter (\<lambda>il. n \<le> fst il \<and> fst il + 1 < length ls + 1 \<and> outsideFence ls (fst il))
          (enumerate 0 ls)"
    by (rule filter_cong [OF refl]) (auto simp: in_set_enumerate_eq outsideFence_prefix)
  with assms show ?thesis
    by (simp add: contentBetween_def enumerate_append_eq outsideFence_last)
qed

lemma contentBetween_empty: "contentBetween ls (length ls) m = []"
proof -
  have "filter (\<lambda>il. length ls \<le> fst il \<and> fst il + 1 < m \<and> outsideFence ls (fst il)) (enumerate 0 ls) = []"
    by (auto simp: filter_empty_conv in_set_enumerate_eq)
  then show ?thesis by (simp add: contentBetween_def)
qed

lemma sectionOf_stable:
  "snd hn \<le> length ls + 1 \<Longrightarrow> sectionOf (ls @ [l]) hn = sectionOf ls hn"
  by (simp add: sectionOf_def contentBetween_stable)

lemma sectionOf_map_stable:
  assumes "list_all (\<lambda>n. n \<le> length ls + 1) ns"
  shows "map (sectionOf (ls @ [l])) (zip hs ns) = map (sectionOf ls) (zip hs ns)"
proof (rule map_cong [OF refl])
  fix hn assume "hn \<in> set (zip hs ns)"
  then have "(fst hn, snd hn) \<in> set (zip hs ns)" by simp
  then have "snd hn \<in> set ns" by (rule set_zip_rightD)
  with assms have "snd hn \<le> length ls + 1" by (simp add: list_all_iff)
  then show "sectionOf (ls @ [l]) hn = sectionOf ls hn" by (rule sectionOf_stable)
qed

lemma section_step:
  assumes "fenceInv F st"
  shows "p_sections (parseLine st (i, l)) =
           (if \<not> isFenceLine l \<and> even (length F) \<and> headingLine l
            then (case currentSection st of Some cs \<Rightarrow> p_sections st @ [cs] | None \<Rightarrow> p_sections st)
            else p_sections st)"
    and "currentSection (parseLine st (i, l)) =
           (if \<not> isFenceLine l \<and> even (length F)
            then (if headingLine l
                  then Some \<lparr>s_title = h_text (headingOf (i, l)), s_level = h_level (headingOf (i, l)),
                              s_lineNumber = i + 1, s_content = []\<rparr>
                  else map_option (\<lambda>cs. cs\<lparr>s_content := s_content cs @ l @ [0x0A]\<rparr>)
                         (currentSection st))
            else currentSection st)"
proof -
  show "p_sections (parseLine st (i, l)) =
           (if \<not> isFenceLine l \<and> even (length F) \<and> headingLine l
            then (case currentSection st of Some cs \<Rightarrow> p_sections st @ [cs] | None \<Rightarrow> p_sections st)
            else p_sections st)"
  proof (cases "isFenceLine l")
    case True
    then show ?thesis by (simp add: parseLine_def Let_def isFenceLine_def split: option.splits)
  next
    case nf: False
    show ?thesis
    proof (cases "odd (length F)")
      case True
      with assms have "inCodeBlock st" "currentCodeBlock st \<noteq> None"
        by (auto simp: fenceInv_def split: option.splits)
      with nf True show ?thesis by (simp add: inside_step)
    next
      case False
      with assms have out: "\<not> inCodeBlock st" by (simp add: fenceInv_def)
      show ?thesis
      proof (cases "reMatch headingRegex l")
        case None
        then have "\<not> headingLine l" by (simp add: heading_match_None)
        with nf out None show ?thesis
          by (simp add: parseLine_def Let_def isFenceLine_def split: option.splits)
      next
        case (Some caps)
        then have "headingLine l" using heading_match_None [of l] by simp
        with nf out False Some show ?thesis
          by (simp add: parseLine_def Let_def isFenceLine_def)
      qed
    qed
  qed
  show "currentSection (parseLine st (i, l)) =
           (if \<not> isFenceLine l \<and> even (length F)
            then (if headingLine l
                  then Some \<lparr>s_title = h_text (headingOf (i, l)), s_level = h_level (headingOf (i, l)),
                              s_lineNumber = i + 1, s_content = []\<rparr>
                  else map_option (\<lambda>cs. cs\<lparr>s_content := s_content cs @ l @ [0x0A]\<rparr>)
                         (currentSection st))
            else currentSection st)"
  proof (cases "isFenceLine l")
    case True
    then show ?thesis by (simp add: parseLine_def Let_def isFenceLine_def split: option.splits)
  next
    case nf: False
    show ?thesis
    proof (cases "odd (length F)")
      case True
      with assms have "inCodeBlock st" "currentCodeBlock st \<noteq> None"
        by (auto simp: fenceInv_def split: option.splits)
      with nf True show ?thesis by (simp add: inside_step)
    next
      case False
      with assms have out: "\<not> inCodeBlock st" by (simp add: fenceInv_def)
      show ?thesis
      proof (cases "reMatch headingRegex l")
        case None
        then have "\<not> headingLine l" by (simp add: heading_match_None)
        with nf out None False show ?thesis
          by (simp add: parseLine_def Let_def isFenceLine_def split: option.splits)
      next
        case (Some caps)
        then have "headingLine l" using heading_match_None [of l] by simp
        with nf out False Some heading_match_Some [OF Some] show ?thesis
          by (simp add: parseLine_def Let_def isFenceLine_def headingOf_def)
      qed
    qed
  qed
qed

lemma sectionOf_last:
  assumes "h_lineNumber h \<le> length ls"
  shows "sectionOf (ls @ [l]) (h, length ls + 2) =
           (sectionOf ls (h, length ls + 1))
             \<lparr>s_content := s_content (sectionOf ls (h, length ls + 1)) @
                (if \<not> isFenceLine l \<and> even (length (fenceNumbers ls)) then l @ [0x0A] else [])\<rparr>"
  using contentBetween_extend [OF assms, of l] by (simp add: sectionOf_def)

lemma sectionOf_new:
  "sectionOf (ls @ [l]) (headingOf (length ls, l), m) =
     \<lparr>s_title = h_text (headingOf (length ls, l)), s_level = h_level (headingOf (length ls, l)),
      s_lineNumber = length ls + 1, s_content = []\<rparr>"
  using contentBetween_empty [of "ls @ [l]" m]
  by (simp add: sectionOf_def headingOf_def)

lemma sectionInv_parseLines: "sectionInv ls (parseLines ls)"
proof (induction ls rule: rev_induct)
  case Nil
  show ?case by (simp add: sectionInv_def parseLines_Nil initialState_def)
next
  case (snoc l ls)
  let ?st = "parseLines ls"
  let ?hs = "p_headings ?st"
  let ?h = "headingOf (length ls, l)"
  note fi = fenceInv_parseLines [of ls]
  note hstep = heading_step [OF fi, of "length ls" l]
  note sstep = section_step [OF fi, of "length ls" l]
  have bound: "list_all (\<lambda>h. h_lineNumber h \<le> length ls) ?hs" by (rule headings_bound)
  then have nums: "list_all (\<lambda>n. n \<le> length ls + 1) (map h_lineNumber (tl ?hs))"
    by (cases ?hs) (auto simp: list_all_iff)
  show ?case
  proof (cases "\<not> isFenceLine l \<and> even (length (fenceNumbers ls)) \<and> headingLine l")
    case new: True
    then have hs': "p_headings (parseLines (ls @ [l])) = ?hs @ [?h]"
      by (simp add: parseLines_snoc hstep)
    show ?thesis
    proof (cases "?hs = []")
      case True
      with snoc have "p_sections ?st = []" "currentSection ?st = None"
        by (simp_all add: sectionInv_def)
      with new True show ?thesis
        by (simp add: sectionInv_def parseLines_snoc hstep sstep sectionOf_new)
    next
      case False
      with snoc have ps: "p_sections ?st =
          map (sectionOf ls) (zip (butlast ?hs) (map h_lineNumber (tl ?hs)))"
        and cur: "currentSection ?st = Some (sectionOf ls (last ?hs, length ls + 1))"
        by (simp_all add: sectionInv_def)
      have z: "zip ?hs (map h_lineNumber (tl ?hs) @ [length ls + 1])
          = zip (butlast ?hs) (map h_lineNumber (tl ?hs)) @ [(last ?hs, length ls + 1)]"
      proof -
        have "zip (butlast ?hs @ [last ?hs]) (map h_lineNumber (tl ?hs) @ [length ls + 1])
            = zip (butlast ?hs) (map h_lineNumber (tl ?hs)) @ zip [last ?hs] [length ls + 1]"
          by (rule zip_append) simp
        with False show ?thesis by simp
      qed
      have all: "list_all (\<lambda>n. n \<le> length ls + 1) (map h_lineNumber (tl ?hs) @ [length ls + 1])"
        using nums by simp
      have "p_sections (parseLines (ls @ [l])) = p_sections ?st @ [sectionOf ls (last ?hs, length ls + 1)]"
        using new cur by (simp add: parseLines_snoc sstep)
      also have "\<dots> = map (sectionOf ls) (zip ?hs (map h_lineNumber (tl ?hs) @ [length ls + 1]))"
        using z by (simp add: ps)
      also have "\<dots> = map (sectionOf (ls @ [l])) (zip ?hs (map h_lineNumber (tl ?hs) @ [length ls + 1]))"
        by (rule sectionOf_map_stable [OF all, symmetric])
      finally have ps': "p_sections (parseLines (ls @ [l])) =
          map (sectionOf (ls @ [l])) (zip ?hs (map h_lineNumber (tl ?hs) @ [length ls + 1]))" .
      have cur': "currentSection (parseLines (ls @ [l])) =
          Some (sectionOf (ls @ [l]) (?h, length (ls @ [l]) + 1))"
        using new by (simp add: parseLines_snoc sstep sectionOf_new)
      have hl: "h_lineNumber ?h = length ls + 1" by (simp add: headingOf_def)
      from False ps' cur' hl show ?thesis
        by (simp add: sectionInv_def hs')
    qed
  next
    case old: False
    then have hs': "p_headings (parseLines (ls @ [l])) = ?hs"
      by (simp add: parseLines_snoc hstep)
    have ps': "p_sections (parseLines (ls @ [l])) = p_sections ?st"
      by (simp only: parseLines_snoc sstep(1) old if_False)
    show ?thesis
    proof (cases "?hs = []")
      case True
      with snoc have "p_sections ?st = []" "currentSection ?st = None"
        by (simp_all add: sectionInv_def)
      then have "currentSection (parseLines (ls @ [l])) = None"
        using old by (auto simp: parseLines_snoc sstep(2))
      with True \<open>p_sections ?st = []\<close> show ?thesis
        by (simp add: sectionInv_def hs' ps')
    next
      case False
      with snoc have ps: "p_sections ?st =
          map (sectionOf ls) (zip (butlast ?hs) (map h_lineNumber (tl ?hs)))"
        and cur: "currentSection ?st = Some (sectionOf ls (last ?hs, length ls + 1))"
        by (simp_all add: sectionInv_def)
      have "map (sectionOf (ls @ [l])) (zip (butlast ?hs) (map h_lineNumber (tl ?hs)))
          = map (sectionOf ls) (zip (butlast ?hs) (map h_lineNumber (tl ?hs)))"
        by (rule sectionOf_map_stable [OF nums])
      with ps ps' have a: "p_sections (parseLines (ls @ [l])) =
          map (sectionOf (ls @ [l])) (zip (butlast ?hs) (map h_lineNumber (tl ?hs)))"
        by simp
      from False bound have "h_lineNumber (last ?hs) \<le> length ls"
        by (simp add: list_all_iff)
      from sectionOf_last [OF this, of l]
      have lastsec: "sectionOf (ls @ [l]) (last ?hs, Suc (Suc (length ls))) =
           (sectionOf ls (last ?hs, Suc (length ls)))
             \<lparr>s_content := s_content (sectionOf ls (last ?hs, Suc (length ls))) @
                (if \<not> isFenceLine l \<and> even (length (fenceNumbers ls)) then l @ [0x0A] else [])\<rparr>"
        by simp
      have b: "currentSection (parseLines (ls @ [l])) =
          Some (sectionOf (ls @ [l]) (last ?hs, length (ls @ [l]) + 1))"
        using old cur by (auto simp: parseLines_snoc sstep(2) lastsec)
      from False a b show ?thesis
        by (simp add: sectionInv_def hs')
    qed
  qed
qed

lemma sections_parseLines:
  "(case currentSection (parseLines ls) of
      Some cs \<Rightarrow> p_sections (parseLines ls) @ [cs]
    | None \<Rightarrow> p_sections (parseLines ls))
   = sectionsOf ls (p_headings (parseLines ls))"
proof (cases "p_headings (parseLines ls) = []")
  case True
  with sectionInv_parseLines [of ls] show ?thesis
    by (simp add: sectionInv_def sectionsOf_def)
next
  case False
  let ?hs = "p_headings (parseLines ls)"
  have "zip (butlast ?hs @ [last ?hs]) (map h_lineNumber (tl ?hs) @ [length ls + 1])
      = zip (butlast ?hs) (map h_lineNumber (tl ?hs)) @ zip [last ?hs] [length ls + 1]"
    by (rule zip_append) simp
  with False have z: "zip ?hs (map h_lineNumber (tl ?hs) @ [length ls + 1])
      = zip (butlast ?hs) (map h_lineNumber (tl ?hs)) @ [(last ?hs, length ls + 1)]"
    by simp
  from False sectionInv_parseLines [of ls] z show ?thesis
    by (simp add: sectionInv_def sectionsOf_def)
qed

lemma sectionsOf_keys:
  "map (\<lambda>s. (s_title s, s_level s, s_lineNumber s)) (sectionsOf ls hs)
     = map (\<lambda>h. (h_text h, h_level h, h_lineNumber h)) hs"
proof (cases hs)
  case Nil
  then show ?thesis by (simp add: sectionsOf_def)
next
  case (Cons h hs')
  then have len: "length hs = length (map h_lineNumber (tl hs) @ [length ls + 1])" by simp
  have "map (\<lambda>s. (s_title s, s_level s, s_lineNumber s)) (sectionsOf ls hs)
      = map (\<lambda>h. (h_text h, h_level h, h_lineNumber h))
          (map fst (zip hs (map h_lineNumber (tl hs) @ [length ls + 1])))"
    by (simp add: sectionsOf_def sectionOf_def comp_def)
  also have "\<dots> = map (\<lambda>h. (h_text h, h_level h, h_lineNumber h)) hs"
    by (simp only: map_fst_zip [OF len])
  finally show ?thesis .
qed

text \<open>
  C6. For every input text the parse has as many headings as sections. More than
  that, the sections are the headings, one for one and in order: the section of a
  heading has its text as title, its level and its line number, and as content the
  lines outside a fence from the heading to the next one (or to the end of the
  input). So every heading opens one section, and every section that was opened is
  pushed, at the next heading or at the end of the input, with what it gathered.
\<close>

theorem heading_section_count:
  "length (headings (parseMarkdown content)) = length (sections (parseMarkdown content))
   \<and> map (\<lambda>s. (s_title s, s_level s, s_lineNumber s)) (sections (parseMarkdown content))
       = map (\<lambda>h. (h_text h, h_level h, h_lineNumber h)) (headings (parseMarkdown content))
   \<and> sections (parseMarkdown content)
       = sectionsOf (split content) (headings (parseMarkdown content))"
proof -
  have s: "sections (parseMarkdown content)
       = sectionsOf (split content) (headings (parseMarkdown content))"
    using sections_parseLines [of "split content"]
    by (simp add: parseMarkdown_parseLines)
  have k: "map (\<lambda>s. (s_title s, s_level s, s_lineNumber s)) (sections (parseMarkdown content))
       = map (\<lambda>h. (h_text h, h_level h, h_lineNumber h)) (headings (parseMarkdown content))"
    by (simp only: s sectionsOf_keys)
  from k have "length (map (\<lambda>s. (s_title s, s_level s, s_lineNumber s)) (sections (parseMarkdown content)))
       = length (map (\<lambda>h. (h_text h, h_level h, h_lineNumber h)) (headings (parseMarkdown content)))"
    by (rule arg_cong)
  then have l: "length (headings (parseMarkdown content)) = length (sections (parseMarkdown content))"
    by simp
  from l k s show ?thesis by blast
qed

text \<open>
  A text of two headings, the second with a fenced block: the first section ends at
  the second heading, and the fenced lines enter no section.
\<close>

lemma section_examples:
  "sections (parseMarkdown
     (ascii ''# A'' @ [0x0A] @ ascii ''x'' @ [0x0A] @ ascii ''## B'' @ [0x0A] @ ascii ''```''
      @ [0x0A] @ ascii ''# c'' @ [0x0A] @ ascii ''```'' @ [0x0A] @ ascii ''y''))
   = [\<lparr>s_title = ascii ''A'', s_level = 1, s_lineNumber = 1, s_content = ascii ''x'' @ [0x0A]\<rparr>,
      \<lparr>s_title = ascii ''B'', s_level = 2, s_lineNumber = 3, s_content = ascii ''y'' @ [0x0A]\<rparr>]"
  by code_simp


section \<open>The search for inline code\<close>

lemma ends_rest_le:
  "st' \<in> set (ends r st) \<Longrightarrow> length (fst (snd st')) \<le> length (fst (snd st))"
proof (induction r arbitrary: st st')
  case (Seq a b)
  from Seq.prems obtain st1 where "st1 \<in> set (ends a st)" "st' \<in> set (ends b st1)"
    by (rule ends_Seq_D)
  with Seq.IH show ?case by (meson le_trans)
next
  case (Grp n a)
  from Grp.prems obtain st1 where "st1 \<in> set (ends a st)" "fst (snd st') = fst (snd st1)"
    by (rule ends_Grp_D)
  with Grp.IH show ?case by simp
next
  case (Alt a b)
  from Alt.prems have "st' \<in> set (ends a st) \<or> st' \<in> set (ends b st)" by auto
  then show ?case
  proof
    assume "st' \<in> set (ends a st)"
    then show ?thesis by (rule Alt.IH(1))
  next
    assume "st' \<in> set (ends b st)"
    then show ?thesis by (rule Alt.IH(2))
  qed
next
  case (Opt a)
  from Opt.prems have "st' \<in> set (ends a st) \<or> st' = st" by auto
  then show ?case
  proof
    assume "st' \<in> set (ends a st)"
    then show ?thesis by (rule Opt.IH)
  next
    assume "st' = st"
    then show ?thesis by simp
  qed
qed (auto simp: rest_advance Let_def split: if_splits list.splits)

lemma inline_code_progress:
  assumes "st' \<in> set (ends inlineCodeRegex st)"
  shows "length (fst (snd st')) < length (fst (snd st))"
proof -
  from assms have "st' \<in> set (ends (Seq (Lit [0x60])
      (Seq (Grp 1 (Rep 1 None (\<lambda>c. c \<noteq> 0x60))) (Lit [0x60]))) st)"
    by (simp only: inlineCodeRegex_def seqs.simps)
  then obtain st1 where a: "st1 \<in> set (ends (Lit [0x60]) st)"
    and b: "st' \<in> set (ends (Seq (Grp 1 (Rep 1 None (\<lambda>c. c \<noteq> 0x60))) (Lit [0x60])) st1)"
    by (rule ends_Seq_D)
  from a have "fst (snd st) \<noteq> []" "fst (snd st1) = drop 1 (fst (snd st))"
    by (auto simp: startsWith_def rest_advance split: if_splits)
  then have "length (fst (snd st1)) < length (fst (snd st))" by simp
  with ends_rest_le [OF b] show ?thesis by simp
qed

lemma reSearch_found:
  "reSearch r prev s = Some st \<Longrightarrow>
   \<exists>prev' s'. length s' \<le> length s \<and> st \<in> set (ends r (prev', s', []))"
proof (induction r prev s rule: reSearch.induct)
  case (1 r prev)
  then have "st \<in> set (ends r (prev, [], []))" by (auto split: list.splits)
  then show ?case by (intro exI [of _ prev] exI [of _ "[]"]) simp
next
  case (2 r prev c s)
  show ?case
  proof (cases "ends r (prev, c # s, [])")
    case Nil
    with 2 obtain prev' s' where "length s' \<le> length s" "st \<in> set (ends r (prev', s', []))"
      by auto
    then show ?thesis by (intro exI [of _ prev'] exI [of _ s']) simp
  next
    case (Cons a as)
    with "2.prems" have "st \<in> set (ends r (prev, c # s, []))" by simp
    then show ?thesis by (intro exI [of _ prev] exI [of _ "c # s"]) simp
  qed
qed

text \<open>
  A match of \<open>inlineCodeRegex\<close> ends before the end of the text it was looked for in,
  so the guard of \<open>execAll\<close> holds at every step of the loop of \<open>extractCommands\<close>.
\<close>

lemma execAll_moves_on:
  assumes "reSearch inlineCodeRegex prev s = Some st"
  shows "length (fst (snd st)) < length s"
proof -
  from reSearch_found [OF assms] obtain prev' s' where
    "length s' \<le> length s" "st \<in> set (ends inlineCodeRegex (prev', s', []))" by blast
  with inline_code_progress [of st "(prev', s', [])"] show ?thesis by simp
qed

section \<open>The validator\<close>

lemma of_char_word16_inj: "(of_char c :: jschar) = of_char d \<longleftrightarrow> c = d"
proof
  assume e: "(of_char c :: jschar) = of_char d"
  have u: "unat (of_char x :: jschar) = of_char x" for x
  proof -
    have "(of_char x :: nat) < 256" by (rule nat_of_char_less_256)
    then have "(of_char x :: nat) < 65536" by linarith
    then have "(of_char x :: nat) < 2 ^ 16" by simp
    then have "unat (of_nat (of_char x) :: jschar) = of_char x"
      by (simp add: unat_of_nat take_bit_nat_eq_self)
    then show ?thesis by (simp add: of_nat_of_char)
  qed
  from e have "unat (of_char c :: jschar) = unat (of_char d :: jschar)" by simp
  then have "(of_char c :: nat) = of_char d" by (simp only: u)
  then show "c = d" by simp
qed simp

lemma ascii_eq_iff: "ascii a = ascii b \<longleftrightarrow> a = b"
  unfolding ascii_def by (rule inj_map_eq_map) (simp add: inj_on_def of_char_word16_inj)

lemma blank_iff: "trim content = [] \<longleftrightarrow> list_all isWhiteSpace content"
proof
  assume "list_all isWhiteSpace content"
  then have d: "dropWhile isWhiteSpace content = []" by (induction content) simp_all
  show "trim content = []" by (simp only: trim_def d rev.simps dropWhile.simps)
next
  assume t: "trim content = []"
  show "list_all isWhiteSpace content"
  proof (cases "dropWhile isWhiteSpace content")
    case Nil
    then show ?thesis by (simp add: list_all_iff)
  next
    case (Cons c cs)
    then have "\<not> isWhiteSpace c" using hd_dropWhile [of isWhiteSpace content] by simp
    moreover from t Cons have "isWhiteSpace c" by (simp add: trim_def)
    ultimately show ?thesis by simp
  qed
qed

lemma validate_blank:
  assumes "list_all isWhiteSpace content"
  shows "validateAgentsMd content =
           \<lparr>suggestions = [getStarted], score = 0,
            summary = ascii ''Empty file - add content to get started''\<rparr>"
  using assms by (simp add: validateAgentsMd_def blank_iff [symmetric])

lemma validate_nonblank:
  assumes "\<not> list_all isWhiteSpace content"
  shows "suggestions (validateAgentsMd content) =
           sort_key (\<lambda>s. priorityOrder (priority s)) (ruleSuggestions (parseMarkdown content) content)"
    and "score (validateAgentsMd content) =
           calculateScore (parseMarkdown content) (suggestions (validateAgentsMd content))"
proof -
  from assms have "content \<noteq> []" by auto
  moreover from assms have "trim content \<noteq> []" by (simp add: blank_iff)
  ultimately show "suggestions (validateAgentsMd content) =
           sort_key (\<lambda>s. priorityOrder (priority s)) (ruleSuggestions (parseMarkdown content) content)"
    and "score (validateAgentsMd content) =
           calculateScore (parseMarkdown content) (suggestions (validateAgentsMd content))"
    by (simp_all add: validateAgentsMd_def Let_def)
qed

lemma deduct_foldl:
  "foldl (\<lambda>score s.
            if stype s = Success then score
            else (case priority s of High \<Rightarrow> score - 15 | Medium \<Rightarrow> score - 8 | Low \<Rightarrow> score - 3))
         a suggs
     = a - sum_list (map deduction suggs)"
  by (induction suggs arbitrary: a) (simp_all add: deduction_def split: SuggestionPriority.splits)

lemma calculateScore_eq:
  "calculateScore parsed suggs =
     min 100 (max 0 (100 - sum_list (map deduction suggs)) + bonus parsed)"
  by (simp add: calculateScore_def deduct_foldl bonus_def Let_def add.commute)

lemma calculateScore_range: "0 \<le> calculateScore parsed suggs \<and> calculateScore parsed suggs \<le> 100"
  by (simp add: calculateScore_eq bonus_def)

text \<open>
  C1. For an input that is neither empty nor white space only, the score is: 100, less
  15, 8 or 3 for every suggestion of the result that is not of type success and has
  priority high, medium or low; that total raised to 0 if it is below; plus 5 for three
  or more sections, plus 5 for a code block, plus 5 for a line count from 10 to 150;
  and the sum capped at 100. For every input the score is between 0 and 100.
\<close>

theorem score_formula:
  "(content \<noteq> [] \<and> \<not> list_all isWhiteSpace content \<longrightarrow>
      score (validateAgentsMd content) =
        min 100 (max 0 (100 - sum_list (map deduction (suggestions (validateAgentsMd content))))
                 + bonus (parseMarkdown content)))
   \<and> 0 \<le> score (validateAgentsMd content) \<and> score (validateAgentsMd content) \<le> 100"
proof (cases "list_all isWhiteSpace content")
  case True
  then show ?thesis by (simp add: validate_blank)
next
  case False
  with calculateScore_range [of "parseMarkdown content" "suggestions (validateAgentsMd content)"]
  show ?thesis
    by (simp add: validate_nonblank(2) calculateScore_eq)
qed

theorem score_formula_witness:
  "ascii ''hello'' \<noteq> [] \<and> \<not> list_all isWhiteSpace (ascii ''hello'')
   \<and> score (validateAgentsMd (ascii ''hello'')) =
        min 100 (max 0 (100 - sum_list (map deduction (suggestions (validateAgentsMd (ascii ''hello'')))))
                 + bonus (parseMarkdown (ascii ''hello'')))"
proof -
  have h1: "ascii ''hello'' \<noteq> []" by code_simp
  have h2: "\<not> list_all isWhiteSpace (ascii ''hello'')" by code_simp
  from score_formula [of "ascii ''hello''"] h1 h2 show ?thesis by blast
qed

text \<open>
  C2. For an input that is empty or white space only the result is fixed: the score 0,
  the one suggestion \<open>Get started with AGENTS.md\<close> (a tip of high priority) and the
  summary of the empty file. The branch calls neither the parser nor a rule.
\<close>

theorem empty_input_result:
  assumes "content = [] \<or> list_all isWhiteSpace content"
  shows "validateAgentsMd content =
           \<lparr>suggestions = [getStarted], score = 0,
            summary = ascii ''Empty file - add content to get started''\<rparr>
         \<and> title getStarted = ascii ''Get started with AGENTS.md''
         \<and> stype getStarted = Tip \<and> priority getStarted = High"
proof -
  from assms have "list_all isWhiteSpace content" by auto
  then show ?thesis by (simp add: validate_blank getStarted_def)
qed

theorem empty_input_result_witness:
  "(ascii '' '' @ [0x09, 0x0A] = [] \<or> list_all isWhiteSpace (ascii '' '' @ [0x09, 0x0A]))
   \<and> validateAgentsMd (ascii '' '' @ [0x09, 0x0A]) =
        \<lparr>suggestions = [getStarted], score = 0,
         summary = ascii ''Empty file - add content to get started''\<rparr>"
proof -
  have h: "ascii '' '' @ [0x09, 0x0A] = [] \<or> list_all isWhiteSpace (ascii '' '' @ [0x09, 0x0A])"
    by code_simp
  from empty_input_result [OF h] h show ?thesis by blast
qed

lemma priorityOrder_inj: "priorityOrder p = priorityOrder q \<longleftrightarrow> p = q"
  by (cases p; cases q) (simp_all add: priorityOrder_def)

text \<open>
  C3. In the suggestions of a result the rank of the priority (high 0, medium 1, low 2)
  never decreases from one position to a later one, and the suggestions of one
  priority keep the order in which the rules emitted them.
\<close>

theorem suggestions_sorted_stable:
  "(\<forall>i j. i < j \<and> j < length (suggestions (validateAgentsMd content)) \<longrightarrow>
       priorityOrder (priority (suggestions (validateAgentsMd content) ! i))
         \<le> priorityOrder (priority (suggestions (validateAgentsMd content) ! j)))
   \<and> priorityOrder High = 0 \<and> priorityOrder Medium = 1 \<and> priorityOrder Low = 2
   \<and> (content \<noteq> [] \<and> \<not> list_all isWhiteSpace content \<longrightarrow>
        (\<forall>p. filter (\<lambda>s. priority s = p) (suggestions (validateAgentsMd content))
             = filter (\<lambda>s. priority s = p) (ruleSuggestions (parseMarkdown content) content)))"
proof -
  let ?ss = "suggestions (validateAgentsMd content)"
  let ?key = "\<lambda>s. priorityOrder (priority s)"
  have sorted: "sorted (map ?key ?ss)"
  proof (cases "list_all isWhiteSpace content")
    case True
    then show ?thesis by (simp add: validate_blank)
  next
    case False
    then show ?thesis by (simp add: validate_nonblank(1))
  qed
  have order: "\<forall>i j. i < j \<and> j < length ?ss \<longrightarrow> ?key (?ss ! i) \<le> ?key (?ss ! j)"
  proof (intro allI impI)
    fix i j assume ij: "i < j \<and> j < length ?ss"
    then have "i \<le> j" "j < length (map ?key ?ss)" by simp_all
    with sorted have "map ?key ?ss ! i \<le> map ?key ?ss ! j" by (rule sorted_nth_mono)
    with ij show "?key (?ss ! i) \<le> ?key (?ss ! j)" by simp
  qed
  have stable: "content \<noteq> [] \<and> \<not> list_all isWhiteSpace content \<longrightarrow>
        (\<forall>p. filter (\<lambda>s. priority s = p) ?ss
             = filter (\<lambda>s. priority s = p) (ruleSuggestions (parseMarkdown content) content))"
  proof (intro impI allI)
    fix p assume "content \<noteq> [] \<and> \<not> list_all isWhiteSpace content"
    then have ss: "?ss = sort_key ?key (ruleSuggestions (parseMarkdown content) content)"
      by (simp add: validate_nonblank(1))
    have "filter (\<lambda>s. ?key s = priorityOrder p) (sort_key ?key (ruleSuggestions (parseMarkdown content) content))
        = filter (\<lambda>s. ?key s = priorityOrder p) (ruleSuggestions (parseMarkdown content) content)"
      by (rule sort_key_stable)
    then show "filter (\<lambda>s. priority s = p) ?ss
             = filter (\<lambda>s. priority s = p) (ruleSuggestions (parseMarkdown content) content)"
      by (simp add: ss priorityOrder_inj)
  qed
  from order stable show ?thesis by (simp add: priorityOrder_def)
qed

theorem suggestions_sorted_stable_witness:
  "ascii ''hello'' \<noteq> [] \<and> \<not> list_all isWhiteSpace (ascii ''hello'')
   \<and> (\<forall>p. filter (\<lambda>s. priority s = p) (suggestions (validateAgentsMd (ascii ''hello'')))
             = filter (\<lambda>s. priority s = p)
                 (ruleSuggestions (parseMarkdown (ascii ''hello'')) (ascii ''hello'')))
   \<and> (0::nat) < 1 \<and> 1 < length (suggestions (validateAgentsMd (ascii ''hello'')))
   \<and> priorityOrder (priority (suggestions (validateAgentsMd (ascii ''hello'')) ! 0))
         \<le> priorityOrder (priority (suggestions (validateAgentsMd (ascii ''hello'')) ! 1))"
proof -
  have h1: "ascii ''hello'' \<noteq> []" by code_simp
  have h2: "\<not> list_all isWhiteSpace (ascii ''hello'')" by code_simp
  have h3: "length (suggestions (validateAgentsMd (ascii ''hello''))) = 4" by code_simp
  then have h4: "(0::nat) < 1 \<and> 1 < length (suggestions (validateAgentsMd (ascii ''hello'')))"
    by simp
  from suggestions_sorted_stable [of "ascii ''hello''"] h1 h2 h4 show ?thesis by blast
qed

lemma titles_nonblank:
  "\<not> list_all isWhiteSpace content \<Longrightarrow>
   titles (validateAgentsMd content) = title ` set (ruleSuggestions (parseMarkdown content) content)"
  by (simp add: titles_def validate_nonblank(1))

lemma titles_blank:
  "list_all isWhiteSpace content \<Longrightarrow>
   titles (validateAgentsMd content) = {ascii ''Get started with AGENTS.md''}"
  by (simp add: titles_def validate_blank getStarted_def)

lemma inj_ascii: "inj ascii"
  by (rule injI) (simp add: ascii_eq_iff)

lemma not_among_titles:
  assumes "\<And>s. s \<in> set xs \<Longrightarrow> title s \<in> ascii ` S" and "a \<notin> S"
  shows "ascii a \<notin> title ` set xs"
proof
  assume "ascii a \<in> title ` set xs"
  then obtain s where "s \<in> set xs" "title s = ascii a" by auto
  with assms(1) have "ascii a \<in> ascii ` S" by metis
  then have "a \<in> S" by (simp add: inj_image_mem_iff [OF inj_ascii])
  with assms(2) show False by simp
qed

lemma title_if_single:
  "t \<in> title ` set (if c then [x] else []) \<longleftrightarrow> c \<and> title x = t"
  by (cases c) auto

lemma length_titles:
  "s \<in> set (pushOpt (checkLength p)) \<Longrightarrow>
   title s \<in> ascii ` {''Consider keeping it concise'', ''File is getting long''}"
  by (auto simp: checkLength_def pushOpt_def split: if_splits)

lemma minimum_titles:
  "s \<in> set (pushOpt (checkMinimumContent p)) \<Longrightarrow>
   title s \<in> ascii ` {''Add more context'', ''Add section headings''}"
  by (auto simp: checkMinimumContent_def pushOpt_def split: if_splits)

lemma common_titles:
  "s \<in> set (checkCommonSections p) \<Longrightarrow>
   title s \<in> ascii ` {''Consider adding setup instructions'',
     ''Consider adding testing instructions'', ''Consider documenting code style''}"
  by (auto simp: checkCommonSections_def Let_def split: if_splits)

lemma command_titles:
  "s \<in> set (pushOpt (checkCommandFormatting p c)) \<Longrightarrow>
   title s \<in> ascii ` {''Consider using code blocks''}"
  by (auto simp: checkCommandFormatting_def pushOpt_def Let_def split: if_splits)

lemma version_titles:
  "s \<in> set (pushOpt (checkVersionSpecificity c)) \<Longrightarrow>
   title s \<in> ascii ` {''Be more specific about versions''}"
  by (auto simp: checkVersionSpecificity_def pushOpt_def Let_def split: if_splits)

lemma readability_titles:
  "s \<in> set (checkReadability p) \<Longrightarrow>
   title s \<in> ascii ` {''Multiple top-level headings'', ''Some sections are very long'',
     ''Empty sections detected''}"
  by (auto simp: checkReadability_def Let_def split: if_splits)

lemma wellformed_titles:
  "s \<in> set (pushOpt (checkWellFormed p c)) \<Longrightarrow>
   title s \<in> ascii ` {''Well-structured AGENTS.md''}"
  by (auto simp: checkWellFormed_def pushOpt_def Let_def split: if_splits)

lemma rule_titles:
  "title ` set (ruleSuggestions p c) =
     title ` set (pushOpt (checkLength p)) \<union>
     title ` set (pushOpt (checkMinimumContent p)) \<union>
     title ` set (checkCommonSections p) \<union>
     title ` set (pushOpt (checkCommandFormatting p c)) \<union>
     title ` set (pushOpt (checkVersionSpecificity c)) \<union>
     title ` set (checkReadability p) \<union>
     title ` set (pushOpt (checkWellFormed p c))"
  by (simp add: ruleSuggestions_def image_Un Un_assoc)

lemma more_context_iff:
  "ascii ''Add more context'' \<in> title ` set (ruleSuggestions p c) \<longleftrightarrow> lineCount p < 5"
proof -
  have "ascii ''Add more context'' \<notin> title ` set (pushOpt (checkLength p))"
    by (rule not_among_titles [OF length_titles]) simp_all
  moreover have "ascii ''Add more context'' \<notin> title ` set (checkCommonSections p)"
    by (rule not_among_titles [OF common_titles]) simp_all
  moreover have "ascii ''Add more context'' \<notin> title ` set (pushOpt (checkCommandFormatting p c))"
    by (rule not_among_titles [OF command_titles]) simp_all
  moreover have "ascii ''Add more context'' \<notin> title ` set (pushOpt (checkVersionSpecificity c))"
    by (rule not_among_titles [OF version_titles]) simp_all
  moreover have "ascii ''Add more context'' \<notin> title ` set (checkReadability p)"
    by (rule not_among_titles [OF readability_titles]) simp_all
  moreover have "ascii ''Add more context'' \<notin> title ` set (pushOpt (checkWellFormed p c))"
    by (rule not_among_titles [OF wellformed_titles]) simp_all
  moreover have "ascii ''Add more context'' \<in> title ` set (pushOpt (checkMinimumContent p))
      \<longleftrightarrow> lineCount p < 5"
    by (simp add: checkMinimumContent_def pushOpt_def ascii_eq_iff)
  ultimately show ?thesis by (simp only: rule_titles Un_iff) blast
qed

lemma section_headings_iff:
  "ascii ''Add section headings'' \<in> title ` set (ruleSuggestions p c) \<longleftrightarrow>
     \<not> lineCount p < 5 \<and> length (sections p) = 0"
proof -
  have "ascii ''Add section headings'' \<notin> title ` set (pushOpt (checkLength p))"
    by (rule not_among_titles [OF length_titles]) simp_all
  moreover have "ascii ''Add section headings'' \<notin> title ` set (checkCommonSections p)"
    by (rule not_among_titles [OF common_titles]) simp_all
  moreover have "ascii ''Add section headings'' \<notin> title ` set (pushOpt (checkCommandFormatting p c))"
    by (rule not_among_titles [OF command_titles]) simp_all
  moreover have "ascii ''Add section headings'' \<notin> title ` set (pushOpt (checkVersionSpecificity c))"
    by (rule not_among_titles [OF version_titles]) simp_all
  moreover have "ascii ''Add section headings'' \<notin> title ` set (checkReadability p)"
    by (rule not_among_titles [OF readability_titles]) simp_all
  moreover have "ascii ''Add section headings'' \<notin> title ` set (pushOpt (checkWellFormed p c))"
    by (rule not_among_titles [OF wellformed_titles]) simp_all
  moreover have "ascii ''Add section headings'' \<in> title ` set (pushOpt (checkMinimumContent p))
      \<longleftrightarrow> \<not> lineCount p < 5 \<and> length (sections p) = 0"
    by (simp add: checkMinimumContent_def pushOpt_def ascii_eq_iff)
  ultimately show ?thesis by (simp only: rule_titles Un_iff) blast
qed

lemma long_sections_iff:
  "ascii ''Some sections are very long'' \<in> title ` set (ruleSuggestions p c) \<longleftrightarrow>
     list_ex (\<lambda>s. length (split (s_content s)) > 50) (sections p)"
proof -
  have "ascii ''Some sections are very long'' \<notin> title ` set (pushOpt (checkLength p))"
    by (rule not_among_titles [OF length_titles]) simp_all
  moreover have "ascii ''Some sections are very long'' \<notin> title ` set (pushOpt (checkMinimumContent p))"
    by (rule not_among_titles [OF minimum_titles]) simp_all
  moreover have "ascii ''Some sections are very long'' \<notin> title ` set (checkCommonSections p)"
    by (rule not_among_titles [OF common_titles]) simp_all
  moreover have "ascii ''Some sections are very long'' \<notin> title ` set (pushOpt (checkCommandFormatting p c))"
    by (rule not_among_titles [OF command_titles]) simp_all
  moreover have "ascii ''Some sections are very long'' \<notin> title ` set (pushOpt (checkVersionSpecificity c))"
    by (rule not_among_titles [OF version_titles]) simp_all
  moreover have "ascii ''Some sections are very long'' \<notin> title ` set (pushOpt (checkWellFormed p c))"
    by (rule not_among_titles [OF wellformed_titles]) simp_all
  moreover have "ascii ''Some sections are very long'' \<in> title ` set (checkReadability p)
      \<longleftrightarrow> list_ex (\<lambda>s. length (split (s_content s)) > 50) (sections p)"
    unfolding checkReadability_def Let_def set_append image_Un Un_iff title_if_single
    by (simp add: ascii_eq_iff filter_empty_conv list_ex_iff)
  ultimately show ?thesis by (simp only: rule_titles Un_iff) blast
qed

lemma no_headings_emitted:
  assumes "\<not> lineCount p < 5" "length (sections p) = 0"
  shows "\<exists>s \<in> set (ruleSuggestions p c).
           title s = ascii ''Add section headings'' \<and> priority s = High"
  using assms by (simp add: ruleSuggestions_def checkMinimumContent_def pushOpt_def)

text \<open>
  C4 (as amended). For an input that is neither empty nor white space only, whose parse
  has no section and at least five lines, the result contains the suggestion
  \<open>Add section headings\<close> with priority high.
\<close>

theorem no_headings_reported:
  assumes "content \<noteq> []" and "\<not> list_all isWhiteSpace content"
    and "length (sections (parseMarkdown content)) = 0"
    and "5 \<le> lineCount (parseMarkdown content)"
  shows "\<exists>s \<in> set (suggestions (validateAgentsMd content)).
           title s = ascii ''Add section headings'' \<and> priority s = High"
proof -
  from assms(4) have "\<not> lineCount (parseMarkdown content) < 5" by simp
  from no_headings_emitted [OF this assms(3)] show ?thesis
    by (simp add: validate_nonblank(1) [OF assms(2)])
qed

theorem no_headings_reported_witness:
  "ascii ''a'' @ [0x0A] @ ascii ''b'' @ [0x0A] @ ascii ''c'' @ [0x0A] @ ascii ''d'' @ [0x0A] @ ascii ''e'' \<noteq> []
   \<and> \<not> list_all isWhiteSpace
        (ascii ''a'' @ [0x0A] @ ascii ''b'' @ [0x0A] @ ascii ''c'' @ [0x0A] @ ascii ''d'' @ [0x0A] @ ascii ''e'')
   \<and> length (sections (parseMarkdown
        (ascii ''a'' @ [0x0A] @ ascii ''b'' @ [0x0A] @ ascii ''c'' @ [0x0A] @ ascii ''d'' @ [0x0A] @ ascii ''e''))) = 0
   \<and> 5 \<le> lineCount (parseMarkdown
        (ascii ''a'' @ [0x0A] @ ascii ''b'' @ [0x0A] @ ascii ''c'' @ [0x0A] @ ascii ''d'' @ [0x0A] @ ascii ''e''))
   \<and> (\<exists>s \<in> set (suggestions (validateAgentsMd
        (ascii ''a'' @ [0x0A] @ ascii ''b'' @ [0x0A] @ ascii ''c'' @ [0x0A] @ ascii ''d'' @ [0x0A] @ ascii ''e''))).
           title s = ascii ''Add section headings'' \<and> priority s = High)"
proof -
  let ?t = "ascii ''a'' @ [0x0A] @ ascii ''b'' @ [0x0A] @ ascii ''c'' @ [0x0A] @ ascii ''d'' @ [0x0A] @ ascii ''e''"
  have h1: "?t \<noteq> []" by code_simp
  have h2: "\<not> list_all isWhiteSpace ?t" by code_simp
  have h3: "length (sections (parseMarkdown ?t)) = 0" by code_simp
  have h4: "5 \<le> lineCount (parseMarkdown ?t)" by code_simp
  from no_headings_reported [OF h1 h2 h3 h4] h1 h2 h3 h4 show ?thesis by blast
qed

text \<open>
  The one-line text \<open>hello\<close> has no section, and its result has no suggestion
  \<open>Add section headings\<close>: \<open>checkMinimumContent\<close> returns \<open>Add more context\<close> for a
  text of fewer than five lines, before it looks at the sections.
\<close>

theorem no_headings_short_file_counterexample:
  "ascii ''hello'' \<noteq> []
   \<and> \<not> list_all isWhiteSpace (ascii ''hello'')
   \<and> length (sections (parseMarkdown (ascii ''hello''))) = 0
   \<and> ascii ''Add section headings'' \<notin> titles (validateAgentsMd (ascii ''hello''))"
proof -
  have h1: "ascii ''hello'' \<noteq> []" by code_simp
  have h2: "\<not> list_all isWhiteSpace (ascii ''hello'')" by code_simp
  have h3: "length (sections (parseMarkdown (ascii ''hello''))) = 0" by code_simp
  have h4: "lineCount (parseMarkdown (ascii ''hello'')) < 5" by code_simp
  from h4 have "ascii ''Add section headings'' \<notin> titles (validateAgentsMd (ascii ''hello''))"
    by (simp add: titles_nonblank [OF h2] section_headings_iff)
  with h1 h2 h3 show ?thesis by blast
qed

text \<open>
  C9. No result contains both \<open>Add more context\<close> and \<open>Add section headings\<close>, and
  the first has precedence: the result of a text of fewer than five lines does not
  contain \<open>Add section headings\<close>.
\<close>

theorem minimum_content_exclusive:
  "\<not> (ascii ''Add more context'' \<in> titles (validateAgentsMd content) \<and>
      ascii ''Add section headings'' \<in> titles (validateAgentsMd content))
   \<and> (lineCount (parseMarkdown content) < 5 \<longrightarrow>
        ascii ''Add section headings'' \<notin> titles (validateAgentsMd content))"
proof (cases "list_all isWhiteSpace content")
  case True
  then show ?thesis by (simp add: titles_blank ascii_eq_iff)
next
  case False
  then show ?thesis by (simp add: titles_nonblank more_context_iff section_headings_iff)
qed

theorem minimum_content_exclusive_witness:
  "lineCount (parseMarkdown (ascii ''hi'')) < 5
   \<and> ascii ''Add section headings'' \<notin> titles (validateAgentsMd (ascii ''hi''))"
proof -
  have h: "lineCount (parseMarkdown (ascii ''hi'')) < 5" by code_simp
  from minimum_content_exclusive [of "ascii ''hi''"] h show ?thesis by blast
qed

lemma length_split: "length (split s) = Suc (length (filter (\<lambda>c. c = 0x0A) s))"
  by (induction s) (auto split: list.splits)

text \<open>
  What the rule does: \<open>content.split('\n').length\<close> is one more than the number of lines
  of the content, each of which ends in a newline, so the rule fires from fifty lines on.
\<close>

lemma long_section_reported_iff:
  assumes "\<not> list_all isWhiteSpace content"
  shows "ascii ''Some sections are very long'' \<in> titles (validateAgentsMd content) \<longleftrightarrow>
         list_ex (\<lambda>s. 50 \<le> length (filter (\<lambda>c. c = 0x0A) (s_content s)))
           (sections (parseMarkdown content))"
  by (simp add: titles_nonblank [OF assms] long_sections_iff length_split less_Suc_eq_le)

text \<open>
  C8. The text of the heading \<open># T\<close> and fifty lines \<open>x\<close> has one section, whose content
  is those fifty lines, and the result contains \<open>Some sections are very long\<close>, whose
  message says that the section has more than 50 lines.
\<close>

theorem long_section_at_fifty_lines:
  "map s_content (sections (parseMarkdown (ascii ''# T'' @ concat (replicate 50 (0x0A # ascii ''x'')))))
     = [concat (replicate 50 (ascii ''x'' @ [0x0A]))]
   \<and> ascii ''Some sections are very long''
       \<in> titles (validateAgentsMd (ascii ''# T'' @ concat (replicate 50 (0x0A # ascii ''x''))))"
proof -
  let ?t = "ascii ''# T'' @ concat (replicate 50 (0x0A # ascii ''x''))"
  have nb: "\<not> list_all isWhiteSpace ?t" by code_simp
  have secs: "sections (parseMarkdown ?t) =
      [\<lparr>s_title = ascii ''T'', s_level = 1, s_lineNumber = 1,
        s_content = concat (replicate 50 (ascii ''x'' @ [0x0A]))\<rparr>]"
    by code_simp
  have len: "length (split (concat (replicate 50 (ascii ''x'' @ [0x0A])))) = 51" by code_simp
  from secs len have "ascii ''Some sections are very long'' \<in> titles (validateAgentsMd ?t)"
    by (simp add: titles_nonblank [OF nb] long_sections_iff)
  with secs show ?thesis by simp
qed

end
